theory Spec2Isabelle
  imports Complex_Main "HOL-Library.Word" "HOL-Library.AList"
begin

unbundle bit_operations_syntax

section \<open>Python strings\<close>

text \<open>
  A Python \<open>str\<close> is a sequence of code points. The model uses \<^typ>\<open>string\<close>, so a
  character is one code point in the range 0..255 (ASCII and Latin-1), and \<open>len\<close>
  is \<^const>\<open>length\<close>. The character classes below are those of Python on that range.
\<close>

definition isspace :: "char \<Rightarrow> bool" where
  \<comment> \<open>\<open>str.isspace\<close>: TAB, LF, VT, FF, CR, FS, GS, RS, US, SPACE, NEL, NBSP\<close>
  "isspace c =
     (let n = (of_char c :: nat)
      in (9 \<le> n \<and> n \<le> 13) \<or> (28 \<le> n \<and> n \<le> 32) \<or> n = 133 \<or> n = 160)"

definition lower_char :: "char \<Rightarrow> char" where
  \<comment> \<open>\<open>str.lower\<close> on one code point: A-Z and the Latin-1 capitals (not the times sign)\<close>
  "lower_char c =
     (let n = (of_char c :: nat)
      in if (65 \<le> n \<and> n \<le> 90) \<or> (192 \<le> n \<and> n \<le> 222 \<and> n \<noteq> 215)
         then char_of (n + 32) else c)"

definition lower :: "string \<Rightarrow> string" where
  "lower s = map lower_char s"

fun startswith :: "string \<Rightarrow> string \<Rightarrow> bool" where
  \<comment> \<open>\<open>startswith s p\<close> is \<open>s.startswith(p)\<close>\<close>
  "startswith s [] = True"
| "startswith [] (p # ps) = False"
| "startswith (c # cs) (p # ps) = (c = p \<and> startswith cs ps)"

fun contains :: "string \<Rightarrow> string \<Rightarrow> bool" where
  \<comment> \<open>\<open>contains sub s\<close> is \<open>sub in s\<close>: \<open>sub\<close> occurs in \<open>s\<close> as a contiguous substring\<close>
  "contains sub [] = (sub = [])"
| "contains sub (c # cs) = (startswith (c # cs) sub \<or> contains sub cs)"

fun split_ws :: "string \<Rightarrow> string \<Rightarrow> string list" where
  \<comment> \<open>the scan of \<open>str.split()\<close>: \<open>cur\<close> is the word read so far\<close>
  "split_ws cur [] = (if cur = [] then [] else [cur])"
| "split_ws cur (c # cs) =
     (if isspace c
      then (if cur = [] then split_ws [] cs else cur # split_ws [] cs)
      else split_ws (cur @ [c]) cs)"

definition split :: "string \<Rightarrow> string list" where
  \<comment> \<open>\<open>text.split()\<close>: the maximal runs of non-whitespace, in order\<close>
  "split text = split_ws [] text"

fun join :: "string \<Rightarrow> string list \<Rightarrow> string" where
  \<comment> \<open>\<open>join sep ws\<close> is \<open>sep.join(ws)\<close>\<close>
  "join sep [] = []"
| "join sep [w] = w"
| "join sep (w # v # ws) = w @ sep @ join sep (v # ws)"

section \<open>Segmenter: \<open>repo_fetcher_agent.py\<close>\<close>

subsection \<open>\<open>chunk_text\<close>\<close>

text \<open>
  The loop state is \<open>(chunks, current_chunk, current_size)\<close>; \<open>chunk_size\<close> is a Python
  integer, so it and the running size are of type \<^typ>\<open>int\<close>.
\<close>

fun chunk_loop ::
  "int \<Rightarrow> string list \<Rightarrow> string list \<times> string list \<times> int \<Rightarrow> string list \<times> string list \<times> int"
where
  "chunk_loop chunk_size [] st = st"
| "chunk_loop chunk_size (word # words) (chunks, current_chunk, current_size) =
     (let current_chunk = current_chunk @ [word];
          current_size = current_size + (int (length word) + 1)
      in if current_size \<ge> chunk_size
         then chunk_loop chunk_size words (chunks @ [join '' '' current_chunk], [], 0)
         else chunk_loop chunk_size words (chunks, current_chunk, current_size))"

definition chunk_text :: "string \<Rightarrow> int \<Rightarrow> string list" where
  "chunk_text text chunk_size =
     (let words = split text;
          (chunks, current_chunk, current_size) = chunk_loop chunk_size words ([], [], 0)
      in if current_chunk \<noteq> [] then chunks @ [join '' '' current_chunk] else chunks)"

subsection \<open>\<open>simple_embedding\<close>\<close>

text \<open>
  \<open>text.encode()\<close> is UTF-8: one byte for a code point below 128, two bytes for the other
  code points of the model.
\<close>

type_synonym byte = "8 word"

definition utf8_char :: "char \<Rightarrow> byte list" where
  "utf8_char c =
     (let n = (of_char c :: nat)
      in if n < 128 then [of_nat n] else [of_nat (192 + n div 64), of_nat (128 + n mod 64)])"

definition encode :: "string \<Rightarrow> byte list" where
  "encode s = concat (map utf8_char s)"

text \<open>
  \<open>hashlib.md5(data).digest()\<close> is the MD5 digest of RFC 1321: the message is padded with the
  byte \<open>0x80\<close>, zero bytes up to 56 modulo 64 and its length in bits as 8 little-endian
  bytes; each block of 64 bytes, read as 16 little-endian words, updates the four state
  words in 64 steps; the digest is the four state words as little-endian bytes.
\<close>

definition md5_shifts :: "nat list" where
  "md5_shifts =
     [7, 12, 17, 22, 7, 12, 17, 22, 7, 12, 17, 22, 7, 12, 17, 22,
      5, 9, 14, 20, 5, 9, 14, 20, 5, 9, 14, 20, 5, 9, 14, 20,
      4, 11, 16, 23, 4, 11, 16, 23, 4, 11, 16, 23, 4, 11, 16, 23,
      6, 10, 15, 21, 6, 10, 15, 21, 6, 10, 15, 21, 6, 10, 15, 21]"

definition md5_consts :: "32 word list" where
  "md5_consts =
     [0xd76aa478, 0xe8c7b756, 0x242070db, 0xc1bdceee,
      0xf57c0faf, 0x4787c62a, 0xa8304613, 0xfd469501,
      0x698098d8, 0x8b44f7af, 0xffff5bb1, 0x895cd7be,
      0x6b901122, 0xfd987193, 0xa679438e, 0x49b40821,
      0xf61e2562, 0xc040b340, 0x265e5a51, 0xe9b6c7aa,
      0xd62f105d, 0x02441453, 0xd8a1e681, 0xe7d3fbc8,
      0x21e1cde6, 0xc33707d6, 0xf4d50d87, 0x455a14ed,
      0xa9e3e905, 0xfcefa3f8, 0x676f02d9, 0x8d2a4c8a,
      0xfffa3942, 0x8771f681, 0x6d9d6122, 0xfde5380c,
      0xa4beea44, 0x4bdecfa9, 0xf6bb4b60, 0xbebfbc70,
      0x289b7ec6, 0xeaa127fa, 0xd4ef3085, 0x04881d05,
      0xd9d4d039, 0xe6db99e5, 0x1fa27cf8, 0xc4ac5665,
      0xf4292244, 0x432aff97, 0xab9423a7, 0xfc93a039,
      0x655b59c3, 0x8f0ccc92, 0xffeff47d, 0x85845dd1,
      0x6fa87e4f, 0xfe2ce6e0, 0xa3014314, 0x4e0811a1,
      0xf7537e82, 0xbd3af235, 0x2ad7d2bb, 0xeb86d391]"

definition md5_pad :: "byte list \<Rightarrow> byte list" where
  "md5_pad msg =
     msg @ [0x80] @ replicate ((119 - length msg mod 64) mod 64) 0 @
     map (\<lambda>k. ucast (drop_bit (8 * k) (of_nat (8 * length msg) :: 64 word))) [0..<8]"

definition word_of_bytes :: "byte list \<Rightarrow> 32 word" where
  "word_of_bytes bs = foldr (\<lambda>b w. push_bit 8 w OR ucast b) bs 0"

definition bytes_of_word :: "32 word \<Rightarrow> byte list" where
  "bytes_of_word w = map (\<lambda>k. ucast (drop_bit (8 * k) w)) [0..<4]"

definition md5_blocks :: "byte list \<Rightarrow> 32 word list list" where
  "md5_blocks padded =
     map (\<lambda>i. map (\<lambda>j. word_of_bytes (take 4 (drop (64 * i + 4 * j) padded))) [0..<16])
       [0..<length padded div 64]"

type_synonym md5_state = "32 word \<times> 32 word \<times> 32 word \<times> 32 word"

fun md5_step :: "32 word list \<Rightarrow> md5_state \<Rightarrow> nat \<Rightarrow> md5_state" where
  "md5_step M (A, B, C, D) i =
     (let (F, g) =
            (if i < 16 then ((B AND C) OR (NOT B AND D), i)
             else if i < 32 then ((D AND B) OR (NOT D AND C), (5 * i + 1) mod 16)
             else if i < 48 then (B XOR C XOR D, (3 * i + 5) mod 16)
             else (C XOR (B OR NOT D), (7 * i) mod 16));
          F = F + A + md5_consts ! i + M ! g
      in (D, B + word_rotl (md5_shifts ! i) F, B, C))"

fun md5_block :: "md5_state \<Rightarrow> 32 word list \<Rightarrow> md5_state" where
  "md5_block (a0, b0, c0, d0) M =
     (case foldl (md5_step M) (a0, b0, c0, d0) [0..<64] of
        (A, B, C, D) \<Rightarrow> (a0 + A, b0 + B, c0 + C, d0 + D))"

definition md5_init :: md5_state where
  "md5_init = (0x67452301, 0xefcdab89, 0x98badcfe, 0x10325476)"

definition md5_digest :: "byte list \<Rightarrow> byte list" where
  "md5_digest msg =
     (case foldl md5_block md5_init (md5_blocks (md5_pad msg)) of
        (a, b, c, d) \<Rightarrow> concat (map bytes_of_word [a, b, c, d]))"

text \<open>
  \<open>simple_embedding\<close>. The slice \<open>hash_bytes[:128]\<close> is \<^const>\<open>take\<close>; the floats
  \<open>float(b) / 255.0\<close> are modelled as reals.
\<close>

definition simple_embedding :: "string \<Rightarrow> real list" where
  "simple_embedding s =
     (let hash_bytes = md5_digest (encode s)
      in map (\<lambda>b. real (unat b) / 255.0) (take 128 hash_bytes))"

text \<open>
  \<open>process(text)\<close> returns the dictionary with the keys \<open>"chunks"\<close> and \<open>"embeddings"\<close>;
  \<open>chunk_text\<close> is called with its default \<open>chunk_size\<close> of 1000.
\<close>

record chunk_result =
  cr_chunks :: "string list"
  cr_embeddings :: "real list list"

definition repo_fetcher_process :: "string \<Rightarrow> chunk_result" where
  "repo_fetcher_process s =
     (let chunks = chunk_text s 1000;
          embeddings = map simple_embedding chunks
      in \<lparr>cr_chunks = chunks, cr_embeddings = embeddings\<rparr>)"

section \<open>The graph library: \<open>networkx.DiGraph\<close>\<close>

text \<open>
  Both agents build a \<open>networkx.DiGraph\<close>. The library is not part of the repository;
  the model follows networkx 3.x. A \<open>DiGraph\<close> keeps its nodes in insertion order and,
  for each node, its successors in insertion order; an edge added twice is stored once.
  The model keeps the node list and the list of distinct edges, both in insertion order,
  so the successors of \<open>u\<close> in adjacency order are the targets of the edges leaving \<open>u\<close>.
\<close>

record 'a digraph =
  dg_nodes :: "'a list"
  dg_edges :: "('a \<times> 'a) list"

definition empty_digraph :: "'a digraph" where
  "empty_digraph = \<lparr>dg_nodes = [], dg_edges = []\<rparr>"

text \<open>\<open>G.add_node(n)\<close>, and \<open>G.add_edge(u, v)\<close>, which first adds \<open>u\<close>, then \<open>v\<close>.\<close>

definition add_node :: "'a \<Rightarrow> 'a digraph \<Rightarrow> 'a digraph" where
  "add_node n G = (if n \<in> set (dg_nodes G) then G else G\<lparr>dg_nodes := dg_nodes G @ [n]\<rparr>)"

definition add_edge :: "'a \<times> 'a \<Rightarrow> 'a digraph \<Rightarrow> 'a digraph" where
  "add_edge e G =
     (let G' = add_node (snd e) (add_node (fst e) G)
      in if e \<in> set (dg_edges G') then G' else G'\<lparr>dg_edges := dg_edges G' @ [e]\<rparr>)"

definition add_nodes_from :: "'a list \<Rightarrow> 'a digraph \<Rightarrow> 'a digraph" where
  "add_nodes_from ns G = foldl (\<lambda>G n. add_node n G) G ns"

definition add_edges_from :: "('a \<times> 'a) list \<Rightarrow> 'a digraph \<Rightarrow> 'a digraph" where
  "add_edges_from es G = foldl (\<lambda>G e. add_edge e G) G es"

text \<open>\<open>G.neighbors(u)\<close>, \<open>G.edges()\<close> (by source node, in node order) and the degrees.\<close>

definition successors :: "'a digraph \<Rightarrow> 'a \<Rightarrow> 'a list" where
  "successors G u = map snd (filter (\<lambda>e. fst e = u) (dg_edges G))"

definition G_edges :: "'a digraph \<Rightarrow> ('a \<times> 'a) list" where
  "G_edges G = concat (map (\<lambda>u. map (Pair u) (successors G u)) (dg_nodes G))"

definition in_degree :: "'a digraph \<Rightarrow> 'a \<Rightarrow> int" where
  "in_degree G v = int (length (filter (\<lambda>e. snd e = v) (dg_edges G)))"

definition out_degree :: "'a digraph \<Rightarrow> 'a \<Rightarrow> int" where
  "out_degree G v = int (length (filter (\<lambda>e. fst e = v) (dg_edges G)))"

definition degree :: "'a digraph \<Rightarrow> 'a \<Rightarrow> int" where
  "degree G v = in_degree G v + out_degree G v"

subsection \<open>\<open>networkx.topological_sort\<close>\<close>

text \<open>
  The exceptions of the model. In networkx, \<open>NetworkXUnfeasible\<close> derives from
  \<open>NetworkXAlgorithmError\<close> and that from \<open>NetworkXException\<close>; \<open>NetworkXError\<close> derives
  from \<open>NetworkXException\<close> too. Neither is a subclass of the other, so a handler for
  \<open>NetworkXError\<close> does not catch \<open>NetworkXUnfeasible\<close>. \<open>RuntimeError\<close> is the built-in.

  \<open>topological_sort(G)\<close> yields the nodes of \<open>topological_generations(G)\<close>, generation by
  generation:
  \<^verbatim>\<open>
    indegree_map = {v: d for v, d in G.in_degree() if d > 0}
    zero_indegree = [v for v, d in G.in_degree() if d == 0]
    while zero_indegree:
        this_generation = zero_indegree
        zero_indegree = []
        for node in this_generation:
            if node not in G:
                raise RuntimeError("Graph changed during iteration")
            for child in G.neighbors(node):
                try:
                    indegree_map[child] -= 1
                except KeyError as err:
                    raise RuntimeError("Graph changed during iteration") from err
                if indegree_map[child] == 0:
                    zero_indegree.append(child)
                    del indegree_map[child]
        yield this_generation
    if indegree_map:
        raise nx.NetworkXUnfeasible("Graph contains a cycle or graph changed during iteration")
  \<close>
  (Its first check raises \<open>NetworkXError\<close> for an undirected graph, which a \<open>DiGraph\<close>
  never is.) \<open>indegree_map\<close> is an association list; \<open>relax_children\<close> is the inner loop
  over the children of one node, \<open>process_generation\<close> the loop over one generation and
  \<open>topological_loop\<close> the \<open>while\<close> loop, which collects the yielded nodes in \<open>out\<close>.
\<close>

datatype exn = NetworkXError | NetworkXUnfeasible | RuntimeError

fun relax_children ::
  "('a \<times> int) list \<Rightarrow> 'a list \<Rightarrow> 'a list \<Rightarrow> exn + ('a \<times> int) list \<times> 'a list"
where
  "relax_children indegree_map zero_indegree [] = Inr (indegree_map, zero_indegree)"
| "relax_children indegree_map zero_indegree (child # rest) =
     (case map_of indegree_map child of
        None \<Rightarrow> Inl RuntimeError
      | Some d \<Rightarrow>
          (let indegree_map = AList.update child (d - 1) indegree_map
           in if d - 1 = 0
              then relax_children (AList.delete child indegree_map) (zero_indegree @ [child]) rest
              else relax_children indegree_map zero_indegree rest))"

fun process_generation ::
  "'a digraph \<Rightarrow> ('a \<times> int) list \<Rightarrow> 'a list \<Rightarrow> 'a list \<Rightarrow> exn + ('a \<times> int) list \<times> 'a list"
where
  "process_generation G indegree_map zero_indegree [] = Inr (indegree_map, zero_indegree)"
| "process_generation G indegree_map zero_indegree (node # rest) =
     (if node \<notin> set (dg_nodes G) then Inl RuntimeError
      else case relax_children indegree_map zero_indegree (successors G node) of
             Inl e \<Rightarrow> Inl e
           | Inr (indegree_map, zero_indegree) \<Rightarrow>
               process_generation G indegree_map zero_indegree rest)"

text \<open>
  Termination of the \<open>while\<close> loop: a generation never makes \<open>indegree_map\<close> and the new
  \<open>zero_indegree\<close> together longer than \<open>indegree_map\<close> was.
\<close>

lemma relax_children_size:
  "relax_children m z cs = Inr (m', z') \<Longrightarrow> length m' + length z' \<le> length m + length z"
proof (induction cs arbitrary: m z)
  case Nil
  then show ?case by simp
next
  case (Cons c cs)
  from Cons.prems obtain d where d: "map_of m c = Some d"
    by (auto split: option.splits)
  have len: "length (AList.update c (d - 1) m) = length m"
  proof -
    from d have "c \<in> set (map fst m)"
      by (metis map_of_eq_None_iff option.distinct(1) set_map)
    then have "map fst (AList.update c (d - 1) m) = map fst m"
      by (simp add: update_keys)
    then show ?thesis by (metis length_map)
  qed
  show ?case
  proof (cases "d - 1 = 0")
    case True
    with Cons.prems d
    have r: "relax_children (AList.delete c (AList.update c (d - 1) m)) (z @ [c]) cs = Inr (m', z')"
      by (simp add: Let_def)
    have "c \<in> fst ` set (AList.update c (d - 1) m)"
      by (simp add: dom_update)
    then have "length (AList.delete c (AList.update c (d - 1) m)) < length (AList.update c (d - 1) m)"
      by (auto simp: AList.delete_eq intro!: length_filter_less)
    with Cons.IH [OF r] len show ?thesis by simp
  next
    case False
    with Cons.prems d
    have r: "relax_children (AList.update c (d - 1) m) z cs = Inr (m', z')"
      by (simp add: Let_def)
    with Cons.IH [OF r] len show ?thesis by simp
  qed
qed

lemma process_generation_size:
  "process_generation G m z ns = Inr (m', z') \<Longrightarrow> length m' + length z' \<le> length m + length z"
proof (induction ns arbitrary: m z)
  case Nil
  then show ?case by simp
next
  case (Cons n ns)
  from Cons.prems obtain m1 z1 where 
    a: "relax_children m z (successors G n) = Inr (m1, z1)" and
    b: "process_generation G m1 z1 ns = Inr (m', z')"
    by (auto split: if_splits sum.splits)
  from relax_children_size [OF a] Cons.IH [OF b] show ?case by simp
qed

function topological_loop ::
  "'a digraph \<Rightarrow> ('a \<times> int) list \<Rightarrow> 'a list \<Rightarrow> 'a list \<Rightarrow> exn + 'a list"
where
  "topological_loop G indegree_map zero_indegree out =
     (if zero_indegree = []
      then (if indegree_map \<noteq> [] then Inl NetworkXUnfeasible else Inr out)
      else case process_generation G indegree_map [] zero_indegree of
             Inl e \<Rightarrow> Inl e
           | Inr (indegree_map', zero_indegree') \<Rightarrow>
               topological_loop G indegree_map' zero_indegree' (out @ zero_indegree))"
  by pat_completeness auto
termination
proof (relation "measure (\<lambda>(G, m, z, out). 2 * length m + (if z = [] then 0 else 1))", goal_cases)
  case 1
  show ?case by simp
next
  case (2 G m z out x2 m' z')
  then have "process_generation G m [] z = Inr (m', z')" by simp
  from process_generation_size [OF this] have "length m' + length z' \<le> length m"
    by simp
  then have "2 * length m' + (if z' = [] then 0 else 1) < 2 * length m + 1"
    by (cases z') auto
  with 2(1) show ?case by simp
qed

definition topological_sort :: "'a digraph \<Rightarrow> exn + 'a list" where
  "topological_sort G =
     topological_loop G
       (map (\<lambda>v. (v, in_degree G v)) (filter (\<lambda>v. in_degree G v > 0) (dg_nodes G)))
       (filter (\<lambda>v. in_degree G v = 0) (dg_nodes G))
       []"

section \<open>Structure Extractor: \<open>structure_analyzer_agent.py\<close>\<close>

text \<open>
  The dictionary \<open>graph_data\<close> that the Structure Extractor returns and the Flow Reasoner
  reads, with its keys \<open>"nodes"\<close>, \<open>"edges"\<close> and \<open>"components"\<close>.
\<close>

record graph_data =
  gd_nodes :: "string list"
  gd_edges :: "(string \<times> string) list"
  gd_components :: "string set list"

text \<open>
  \<open>find_dependencies\<close>. The entities are a Python set; the model takes them as the list of
  its elements in the order the set iterates them, which is the same in every iteration
  of one run. \<open>pairs_after\<close> is the double loop over \<open>found_entities\<close>.
\<close>

fun pairs_after :: "string list \<Rightarrow> (string \<times> string) list" where
  "pairs_after [] = []"
| "pairs_after (entity1 # rest) =
     map (Pair entity1) (filter (\<lambda>entity2. entity1 \<noteq> entity2) rest) @ pairs_after rest"

definition find_dependencies :: "string list \<Rightarrow> string list \<Rightarrow> (string \<times> string) list" where
  "find_dependencies chunks entities =
     concat (map (\<lambda>chunk.
       let chunk_lower = lower chunk;
           found_entities = filter (\<lambda>e. contains (lower e) chunk_lower) entities
       in pairs_after found_entities) chunks)"

text \<open>
  \<open>networkx.weakly_connected_components\<close>: for each node not seen yet, in node order, the
  set of nodes reachable from it when the direction of the edges is ignored.
\<close>

definition component_of :: "'a digraph \<Rightarrow> 'a \<Rightarrow> 'a set" where
  "component_of G v =
     {u \<in> set (dg_nodes G). u = v \<or> (v, u) \<in> (set (dg_edges G @ map prod.swap (dg_edges G)))\<^sup>+}"

fun components_from :: "'a digraph \<Rightarrow> 'a list \<Rightarrow> 'a set \<Rightarrow> 'a set list" where
  "components_from G [] seen = []"
| "components_from G (v # vs) seen =
     (if v \<in> seen then components_from G vs seen
      else component_of G v # components_from G vs (seen \<union> component_of G v))"

definition weakly_connected_components :: "'a digraph \<Rightarrow> 'a set list" where
  "weakly_connected_components G = components_from G (dg_nodes G) {}"

text \<open>
  The graph construction of \<open>process\<close>, from the entities (in iteration order) and the
  dependencies found for them.
\<close>

definition build_graph :: "string list \<Rightarrow> (string \<times> string) list \<Rightarrow> graph_data" where
  "build_graph entities dependencies =
     (let G = foldl (\<lambda>G entity. add_node entity G) empty_digraph entities;
          G = foldl (\<lambda>G (source, target). add_edge (source, target) G) G dependencies
      in \<lparr>gd_nodes = dg_nodes G,
          gd_edges = G_edges G,
          gd_components = (if dg_nodes G \<noteq> [] then weakly_connected_components G else [])\<rparr>)"

definition structure_process :: "string list \<Rightarrow> string list \<Rightarrow> graph_data" where
  \<comment> \<open>\<open>process(chunks)\<close>, where \<open>entities\<close> is what \<open>extract_entities(chunks)\<close> returned\<close>
  "structure_process chunks entities = build_graph entities (find_dependencies chunks entities)"

section \<open>Flow Reasoner: \<open>flow_reasoning_agent.py\<close>\<close>

definition graph_of :: "graph_data \<Rightarrow> string digraph" where
  \<comment> \<open>\<open>G = nx.DiGraph(); G.add_nodes_from(nodes); G.add_edges_from(edges)\<close>\<close>
  "graph_of graph_data =
     add_edges_from (gd_edges graph_data) (add_nodes_from (gd_nodes graph_data) empty_digraph)"

fun flow_step :: "nat \<Rightarrow> nat \<times> string \<Rightarrow> string" where
  \<comment> \<open>the body of the loop over \<open>enumerate(topological_order[:8])\<close>; \<open>len\<close> is
      \<open>len(topological_order)\<close>\<close>
  "flow_step len (i, node) =
     (if i = 0 then ''Initialize '' @ node
      else if int i = int len - 1 then ''Return result from '' @ node
      else ''Process '' @ node)"

definition flow_steps :: "string list \<Rightarrow> string list" where
  "flow_steps topological_order =
     map (flow_step (length topological_order)) (enumerate 0 (take 8 topological_order))"

definition build_execution_flow :: "graph_data \<Rightarrow> exn + string list" where
  "build_execution_flow graph_data =
     (let nodes = gd_nodes graph_data
      in if nodes = [] then Inr [''System initializes'', ''Processes input'', ''Returns output'']
         else
           let G = graph_of graph_data
           in case (case topological_sort G of
                      Inr order \<Rightarrow> Inr order
                    | Inl e \<Rightarrow> if e = NetworkXError then Inr (take 10 nodes) else Inl e) of
                Inl e \<Rightarrow> Inl e
              | Inr topological_order \<Rightarrow> Inr (flow_steps topological_order))"

text \<open>
  \<open>networkx.degree_centrality\<close>: 1 for every node of a graph with at most one node,
  otherwise the degree times \<open>1.0 / (len(G) - 1.0)\<close>. The floats are modelled as reals.
  \<open>sorted(..., reverse=True)\<close> is stable, as \<^const>\<open>sort_key\<close> on the negated score.
\<close>

definition degree_centrality :: "'a digraph \<Rightarrow> ('a \<times> real) list" where
  "degree_centrality G =
     (if length (dg_nodes G) \<le> 1 then map (\<lambda>n. (n, 1)) (dg_nodes G)
      else let s = 1 / (of_nat (length (dg_nodes G)) - 1)
           in map (\<lambda>n. (n, of_int (degree G n) * s)) (dg_nodes G))"

definition extract_key_components :: "graph_data \<Rightarrow> string list" where
  "extract_key_components graph_data =
     (let nodes = gd_nodes graph_data
      in if nodes = [] then [''core system'', ''input handler'', ''output formatter'']
         else
           let G = graph_of graph_data;
               centrality = degree_centrality G;
               sorted_nodes = sort_key (\<lambda>x. - snd x) centrality
           in map fst (take 5 sorted_nodes))"

definition function_keywords :: "string list" where
  "function_keywords =
     [''handler'', ''process'', ''create'', ''update'', ''delete'', ''fetch'', ''get'', ''post'',
      ''put'']"

definition extract_key_functions :: "graph_data \<Rightarrow> string list" where
  "extract_key_functions graph_data =
     (let nodes = gd_nodes graph_data;
          functions = filter (\<lambda>node. list_ex (\<lambda>kw. contains kw (lower node)) function_keywords) nodes
      in if functions \<noteq> [] then take 5 functions
         else if nodes \<noteq> [] then take 5 nodes
         else [''main'', ''init'', ''run''])"

text \<open>The Summary Result, the dictionary that \<open>process\<close> and \<open>run_agent_graph\<close> return.\<close>

record summary =
  execution_flow :: "string list"
  key_components :: "string list"
  key_functions :: "string list"

definition flow_process :: "graph_data \<Rightarrow> exn + summary" where
  "flow_process dependency_graph =
     (case build_execution_flow dependency_graph of
        Inl e \<Rightarrow> Inl e
      | Inr flow \<Rightarrow>
          Inr \<lparr>execution_flow = flow,
               key_components = extract_key_components dependency_graph,
               key_functions = extract_key_functions dependency_graph\<rparr>)"

section \<open>Orchestrator: \<open>agent_graph.py\<close>\<close>

text \<open>
  \<open>run_agent_graph\<close> runs the three stages in sequence inside \<open>try\<close> and returns a fixed
  dictionary from \<open>except Exception\<close>. To speak about a failure of any stage, the stages are
  parameters of the model: each is a function that returns its result or raises, and \<open>'e\<close>
  is the type of the exceptions (instances of \<open>Exception\<close>) they raise. The second stage
  receives \<open>chunk_result["chunks"]\<close>, the third the dependency graph.
\<close>

definition execute_pipeline ::
  "(string \<Rightarrow> 'e + chunk_result) \<Rightarrow> (string list \<Rightarrow> 'e + graph_data) \<Rightarrow>
   (graph_data \<Rightarrow> 'e + summary) \<Rightarrow> string \<Rightarrow> 'e + summary"
where
  "execute_pipeline fetch analyze reason s =
     (case fetch s of
        Inl e \<Rightarrow> Inl e
      | Inr chunk_result \<Rightarrow>
          (case analyze (cr_chunks chunk_result) of
             Inl e \<Rightarrow> Inl e
           | Inr dependency_graph \<Rightarrow> reason dependency_graph))"

definition generic_summary :: summary where
  "generic_summary =
     \<lparr>execution_flow =
        [''System initializes core components'',
         ''Input handler receives and validates data'',
         ''Main processor transforms the data'',
         ''Output formatter prepares response'',
         ''System returns formatted result''],
      key_components = [''core system'', ''input handler'', ''output formatter''],
      key_functions = [''main'', ''init'', ''process'']\<rparr>"

definition run_agent_graph_with ::
  "(string \<Rightarrow> 'e + chunk_result) \<Rightarrow> (string list \<Rightarrow> 'e + graph_data) \<Rightarrow>
   (graph_data \<Rightarrow> 'e + summary) \<Rightarrow> string \<Rightarrow> summary"
where
  "run_agent_graph_with fetch analyze reason s =
     (case execute_pipeline fetch analyze reason s of
        Inr result \<Rightarrow> result
      | Inl e \<Rightarrow> generic_summary)"

text \<open>
  The stages of the repository. \<open>extract_entities\<close> (the regular-expression matching) is not
  modelled: the list of the entities it finds, in the iteration order of the set, is the
  parameter \<open>extract_entities\<close>.
\<close>

definition run_agent_graph :: "(string list \<Rightarrow> string list) \<Rightarrow> string \<Rightarrow> summary" where
  "run_agent_graph extract_entities s =
     run_agent_graph_with
       (\<lambda>s. Inr (repo_fetcher_process s))
       (\<lambda>chunks. Inr (structure_process chunks (extract_entities chunks)))
       flow_process s"

section \<open>Notions used in the proofs\<close>

definition word_ok :: "string \<Rightarrow> bool" where
  \<comment> \<open>a word as \<open>split\<close> produces it: not empty, no whitespace inside\<close>
  "word_ok w = (w \<noteq> [] \<and> (\<forall>c\<in>set w. \<not> isspace c))"

definition is_function_name :: "string \<Rightarrow> bool" where
  \<comment> \<open>the filter condition of \<open>extract_key_functions\<close>\<close>
  "is_function_name node = list_ex (\<lambda>kw. contains kw (lower node)) function_keywords"

text \<open>The invariant of the data model: every edge joins two listed nodes.\<close>

definition edges_within_nodes :: "graph_data \<Rightarrow> bool" where
  "edges_within_nodes g =
     (\<forall>(u, v)\<in>set (gd_edges g). u \<in> set (gd_nodes g) \<and> v \<in> set (gd_nodes g))"

text \<open>
  A graph as the \<open>DiGraph\<close> operations build it: no node and no edge twice, and the
  endpoints of every edge among the nodes.
\<close>

definition wf_digraph :: "'a digraph \<Rightarrow> bool" where
  "wf_digraph G =
     (distinct (dg_nodes G) \<and> distinct (dg_edges G) \<and>
      (\<forall>e\<in>set (dg_edges G). fst e \<in> set (dg_nodes G) \<and> snd e \<in> set (dg_nodes G)))"

text \<open>
  For the topological sort: \<open>D\<close> is the set of edges already followed. \<open>remaining G D v\<close>
  counts the edges into \<open>v\<close> not followed yet; \<open>map_ok\<close> says that \<open>indegree_map\<close> holds
  exactly these counts, for the nodes where the count is not zero; \<open>newly G D D'\<close> are the
  nodes whose count reaches zero between \<open>D\<close> and \<open>D'\<close>; \<open>edges_from G P\<close> are the edges
  leaving the nodes of \<open>P\<close>.
\<close>

definition remaining :: "'a digraph \<Rightarrow> ('a \<times> 'a) set \<Rightarrow> 'a \<Rightarrow> nat" where
  "remaining G D v = card {e \<in> set (dg_edges G). snd e = v \<and> e \<notin> D}"

definition map_ok :: "'a digraph \<Rightarrow> ('a \<times> 'a) set \<Rightarrow> ('a \<times> int) list \<Rightarrow> bool" where
  "map_ok G D m =
     (distinct (map fst m) \<and>
      (\<forall>v. map_of m v = (if remaining G D v = 0 then None else Some (int (remaining G D v)))))"

definition newly :: "'a digraph \<Rightarrow> ('a \<times> 'a) set \<Rightarrow> ('a \<times> 'a) set \<Rightarrow> 'a set" where
  "newly G D D' = {c. remaining G D c \<noteq> 0 \<and> remaining G D' c = 0}"

definition edges_from :: "'a digraph \<Rightarrow> 'a set \<Rightarrow> ('a \<times> 'a) set" where
  "edges_from G P = {e \<in> set (dg_edges G). fst e \<in> P}"

text \<open>
  A list respects the edges when every node in it comes after all its predecessors.
\<close>

definition edges_respect :: "'a digraph \<Rightarrow> 'a list \<Rightarrow> bool" where
  "edges_respect G out =
     (\<forall>pre v post. out = pre @ v # post \<longrightarrow>
        (\<forall>p. (p, v) \<in> set (dg_edges G) \<longrightarrow> p \<in> set pre))"

section \<open>Inputs used in the examples\<close>

definition empty_graph :: graph_data where
  "empty_graph = \<lparr>gd_nodes = [], gd_edges = [], gd_components = []\<rparr>"

definition cycle3 :: graph_data where
  \<comment> \<open>a single directed cycle among three named nodes\<close>
  "cycle3 = \<lparr>gd_nodes = [''a'', ''b'', ''c''],
     gd_edges = [(''a'', ''b''), (''b'', ''c''), (''c'', ''a'')],
     gd_components = [{''a'', ''b'', ''c''}]\<rparr>"

definition user_config_widget :: graph_data where
  "user_config_widget = \<lparr>gd_nodes = [''getUser'', ''setConfig'', ''Widget''], gd_edges = [],
     gd_components = [{''getUser''}, {''setConfig''}, {''Widget''}]\<rparr>"

definition chain3 :: graph_data where
  \<comment> \<open>the graph of the scenario \<open>Foo\<close>, \<open>Bar\<close>, \<open>Baz\<close>\<close>
  "chain3 = \<lparr>gd_nodes = [''Foo'', ''Bar'', ''Baz''],
     gd_edges = [(''Foo'', ''Bar''), (''Bar'', ''Baz'')],
     gd_components = [{''Foo'', ''Bar'', ''Baz''}]\<rparr>"

definition nine_nodes :: graph_data where
  "nine_nodes = \<lparr>gd_nodes = [''a'', ''b'', ''c'', ''d'', ''e'', ''f'', ''g'', ''h'', ''i''],
     gd_edges = [(''b'', ''a''), (''c'', ''b''), (''c'', ''a'')],
     gd_components = [{''a'', ''b'', ''c''}, {''d''}, {''e''}, {''f''}, {''g''}, {''h''}, {''i''}]\<rparr>"

section \<open>Properties of the Segmenter\<close>

lemma isspace_space: "isspace CHR '' ''"
  by (simp add: isspace_def)

lemma split_ws_nospace:
  "\<forall>c\<in>set w. \<not> isspace c \<Longrightarrow> split_ws cur (w @ rest) = split_ws (cur @ w) rest"
  by (induction w arbitrary: cur) auto

lemma split_ws_words_ok:
  "\<forall>c\<in>set cur. \<not> isspace c \<Longrightarrow> \<forall>w\<in>set (split_ws cur s). word_ok w"
proof (induction s arbitrary: cur)
  case Nil
  then show ?case by (simp add: word_ok_def)
next
  case (Cons a s)
  show ?case
  proof (cases "isspace a")
    case True
    then show ?thesis
      using Cons.IH [of "[]"] Cons.prems by (simp add: word_ok_def)
  next
    case False
    then show ?thesis
      using Cons.IH [of "cur @ [a]"] Cons.prems by simp
  qed
qed

lemma split_words_ok: "\<forall>w\<in>set (split s). word_ok w"
  using split_ws_words_ok [of "[]" s] by (simp add: split_def)

lemma split_ws_join:
  "\<forall>w\<in>set ws. word_ok w \<Longrightarrow> split_ws [] (join '' '' ws) = ws"
proof (induction "'' ''" ws rule: join.induct)
  case 1
  then show ?case by simp
next
  case (2 w)
  then show ?case
    using split_ws_nospace [of w "[]" "[]"] by (simp add: word_ok_def)
next
  case (3 w v ws)
  have "split_ws [] (w @ '' '' @ join '' '' (v # ws)) = split_ws w ('' '' @ join '' '' (v # ws))"
    using 3 split_ws_nospace [of w "[]"] by (simp add: word_ok_def)
  also have "\<dots> = w # split_ws [] (join '' '' (v # ws))"
    using 3 by (simp add: isspace_space word_ok_def)
  finally show ?case using 3 by simp
qed

lemma split_join: "\<forall>w\<in>set ws. word_ok w \<Longrightarrow> split (join '' '' ws) = ws"
  by (simp add: split_def split_ws_join)

text \<open>
  The loop invariant of \<open>chunk_text\<close>: the words of the closed chunks, followed by the
  words still accumulated, followed by the words not yet read, are the words of the input.
\<close>

lemma chunk_loop_words:
  "\<forall>w\<in>set ws. word_ok w \<Longrightarrow> \<forall>w\<in>set cur. word_ok w \<Longrightarrow>
   chunk_loop n ws (chunks, cur, sz) = (chunks', cur', sz') \<Longrightarrow>
   concat (map split chunks') @ cur' = concat (map split chunks) @ cur @ ws \<and>
   (\<forall>w\<in>set cur'. word_ok w)"
proof (induction ws arbitrary: chunks cur sz)
  case Nil
  then show ?case by simp
next
  case (Cons w ws)
  show ?case
  proof (cases "sz + (int (length w) + 1) \<ge> n")
    case True
    with Cons.prems
    have "chunk_loop n ws (chunks @ [join '' '' (cur @ [w])], [], 0) = (chunks', cur', sz')"
      by (simp add: Let_def)
    from Cons.IH [OF _ _ this] Cons.prems(1,2) show ?thesis
      by (simp add: split_join)
  next
    case False
    with Cons.prems
    have "chunk_loop n ws (chunks, cur @ [w], sz + (int (length w) + 1)) = (chunks', cur', sz')"
      by (simp add: Let_def)
    from Cons.IH [OF _ _ this] Cons.prems(1,2) show ?thesis
      by simp
  qed
qed

lemma chunk_loop_nonempty:
  "\<forall>w\<in>set ws. word_ok w \<Longrightarrow> \<forall>w\<in>set cur. word_ok w \<Longrightarrow>
   \<forall>c\<in>set chunks. split c \<noteq> [] \<Longrightarrow>
   chunk_loop n ws (chunks, cur, sz) = (chunks', cur', sz') \<Longrightarrow>
   \<forall>c\<in>set chunks'. split c \<noteq> []"
proof (induction ws arbitrary: chunks cur sz)
  case Nil
  then show ?case by simp
next
  case (Cons w ws)
  show ?case
  proof (cases "sz + (int (length w) + 1) \<ge> n")
    case True
    with Cons.prems
    have "chunk_loop n ws (chunks @ [join '' '' (cur @ [w])], [], 0) = (chunks', cur', sz')"
      by (simp add: Let_def)
    from Cons.IH [OF _ _ _ this] Cons.prems(1,2,3) show ?thesis
      by (simp add: split_join)
  next
    case False
    with Cons.prems
    have "chunk_loop n ws (chunks, cur @ [w], sz + (int (length w) + 1)) = (chunks', cur', sz')"
      by (simp add: Let_def)
    from Cons.IH [OF _ _ _ this] Cons.prems(1,2,3) show ?thesis
      by simp
  qed
qed

text \<open>
  Claim C5. For every input text and every chunk size (positive or not), splitting each
  chunk returned by \<open>chunk_text\<close> on whitespace and concatenating the word lists in chunk
  order gives exactly the whitespace-split word sequence of the input.
\<close>

theorem chunk_text_roundtrip:
  "concat (map split (chunk_text s chunk_size)) = split s"
proof -
  obtain chunks cur sz
    where r: "chunk_loop chunk_size (split s) ([], [], 0) = (chunks, cur, sz)"
    by (metis prod_cases3)
  have ok: "\<forall>w\<in>set (split s). word_ok w" by (rule split_words_ok)
  from chunk_loop_words [OF ok _ r]
  have c: "concat (map split chunks) @ cur = split s" and okc: "\<forall>w\<in>set cur. word_ok w"
    by simp_all
  show ?thesis
  proof (cases "cur = []")
    case True
    with c r show ?thesis by (simp add: chunk_text_def)
  next
    case False
    with c okc r show ?thesis by (simp add: chunk_text_def split_join)
  qed
qed

lemma chunk_text_chunks_nonempty: "\<forall>c\<in>set (chunk_text s chunk_size). split c \<noteq> []"
proof -
  obtain chunks cur sz
    where r: "chunk_loop chunk_size (split s) ([], [], 0) = (chunks, cur, sz)"
    by (metis prod_cases3)
  have ok: "\<forall>w\<in>set (split s). word_ok w" by (rule split_words_ok)
  from chunk_loop_words [OF ok _ r] have okc: "\<forall>w\<in>set cur. word_ok w"
    by simp
  from chunk_loop_nonempty [OF ok _ _ r] have ne: "\<forall>c\<in>set chunks. split c \<noteq> []"
    by simp
  show ?thesis
  proof (cases "cur = []")
    case True
    with ne r show ?thesis by (simp add: chunk_text_def)
  next
    case False
    with ne okc r show ?thesis by (simp add: chunk_text_def split_join)
  qed
qed

lemma chunk_text_single_word: "split s = [w] \<Longrightarrow> chunk_text s chunk_size = [w]"
  by (simp add: chunk_text_def Let_def)

text \<open>
  Claim C8. \<open>chunk_text\<close> on the empty string returns no chunk; on a text that is a single
  word longer than \<open>chunk_size\<close> it returns exactly one chunk, whose text is that word; and
  no returned chunk is built from zero words: every chunk is non-empty and splits into at
  least one word.
\<close>

theorem chunk_text_edge_cases:
  "chunk_text [] chunk_size = [] \<and>
   (split s = [w] \<and> chunk_size < int (length w) \<longrightarrow> chunk_text s chunk_size = [w]) \<and>
   (\<forall>c\<in>set (chunk_text s chunk_size). c \<noteq> [] \<and> split c \<noteq> [])"
proof -
  have "chunk_text [] chunk_size = []"
    by (simp add: chunk_text_def split_def)
  moreover have "split s = [w] \<longrightarrow> chunk_text s chunk_size = [w]"
    by (simp add: chunk_text_single_word)
  moreover have "\<forall>c\<in>set (chunk_text s chunk_size). c \<noteq> [] \<and> split c \<noteq> []"
    using chunk_text_chunks_nonempty [of s chunk_size] by (auto simp: split_def)
  ultimately show ?thesis by blast
qed

theorem chunk_text_edge_cases_witness:
  "chunk_text [] 4 = [] \<and>
   split ''  identifier '' = [''identifier''] \<and> (4::int) < int (length ''identifier'') \<and>
   chunk_text ''  identifier '' 4 = [''identifier''] \<and>
   chunk_text ''ab cd ef'' 4 = [''ab cd'', ''ef''] \<and>
   ''ab cd'' \<noteq> [] \<and> split ''ab cd'' \<noteq> []"
proof -
  have sp: "split ''  identifier '' = [''identifier'']"
    by (simp add: split_def isspace_def)
  have ct: "chunk_text ''ab cd ef'' 4 = [''ab cd'', ''ef'']"
    by (simp add: chunk_text_def split_def isspace_def Let_def)
  from chunk_text_edge_cases [of 4 "''  identifier ''" "''identifier''"] sp
  have a: "chunk_text [] 4 = []" and b: "chunk_text ''  identifier '' 4 = [''identifier'']"
    by simp_all
  from chunk_text_edge_cases [of 4 "''ab cd ef''" "[]"]
  have "\<forall>c\<in>set (chunk_text ''ab cd ef'' 4). c \<noteq> [] \<and> split c \<noteq> []"
    by blast
  then have c: "''ab cd'' \<noteq> [] \<and> split ''ab cd'' \<noteq> []"
    unfolding ct by simp
  from a b c sp ct show ?thesis by simp
qed

subsection \<open>\<open>simple_embedding\<close>\<close>

lemma length_bytes_of_word: "length (bytes_of_word w) = 4"
  by (simp add: bytes_of_word_def)

lemma length_md5_digest: "length (md5_digest msg) = 16"
proof -
  obtain a b c d where "foldl md5_block md5_init (md5_blocks (md5_pad msg)) = (a, b, c, d)"
    by (metis prod_cases4)
  then show ?thesis
    by (simp add: md5_digest_def length_bytes_of_word)
qed

lemma length_simple_embedding: "length (simple_embedding s) = 16"
  by (simp add: simple_embedding_def length_md5_digest)

lemma byte_le_255: "unat (b :: byte) \<le> 255"
proof -
  have "unat b < 2 ^ LENGTH(8)" by (rule unsigned_less)
  then show ?thesis by simp
qed

lemma simple_embedding_range: "\<forall>x\<in>set (simple_embedding s). 0 \<le> x \<and> x \<le> 1"
proof
  fix x assume "x \<in> set (simple_embedding s)"
  then obtain b :: byte where "x = real (unat b) / 255"
    by (auto simp: simple_embedding_def dest: in_set_takeD)
  then obtain n :: nat where x: "x = real n / 255" and n: "n \<le> 255"
    using byte_le_255 by blast
  show "0 \<le> x \<and> x \<le> 1" unfolding x using n by simp
qed

text \<open>The digest of the empty message, as RFC 1321 gives it.\<close>

lemma md5_empty:
  "md5_digest (encode []) =
     [0xd4, 0x1d, 0x8c, 0xd9, 0x8f, 0x00, 0xb2, 0x04, 0xe9, 0x80, 0x09, 0x98, 0xec, 0xf8, 0x42, 0x7e]"
  by code_simp

text \<open>
  Claim C1 says that \<open>simple_embedding\<close> returns exactly 128 values in \<open>[0,1]\<close> for every
  text. The values are in \<open>[0,1]\<close>, but an MD5 digest has 16 bytes (128 bits), so the slice
  \<open>hash_bytes[:128]\<close> keeps 16 values: on the empty string, as on every text, the result
  has length 16.
\<close>

theorem simple_embedding_length_16:
  "length (simple_embedding []) = 16"
  by (rule length_simple_embedding)

section \<open>Properties of the graph library\<close>

lemma nodes_add_node: "set (dg_nodes (add_node n G)) = insert n (set (dg_nodes G))"
  by (auto simp: add_node_def)

lemma edges_add_node: "dg_edges (add_node n G) = dg_edges G"
  by (simp add: add_node_def)

lemma nodes_add_edge:
  "set (dg_nodes (add_edge e G)) = insert (fst e) (insert (snd e) (set (dg_nodes G)))"
  by (auto simp: add_edge_def Let_def nodes_add_node)

lemma edges_add_edge: "set (dg_edges (add_edge e G)) = insert e (set (dg_edges G))"
  by (auto simp: add_edge_def Let_def edges_add_node)

lemma nodes_fold_add_node:
  "set (dg_nodes (foldl (\<lambda>G n. add_node n G) G ns)) = set (dg_nodes G) \<union> set ns"
  by (induction ns arbitrary: G) (auto simp: nodes_add_node)

lemma edges_fold_add_node: "dg_edges (foldl (\<lambda>G n. add_node n G) G ns) = dg_edges G"
  by (induction ns arbitrary: G) (auto simp: edges_add_node)

lemma nodes_fold_add_edge:
  "set (dg_nodes (foldl (\<lambda>G e. add_edge e G) G es)) = set (dg_nodes G) \<union> fst ` set es \<union> snd ` set es"
  by (induction es arbitrary: G) (auto simp: nodes_add_edge)

lemma edges_fold_add_edge:
  "set (dg_edges (foldl (\<lambda>G e. add_edge e G) G es)) = set (dg_edges G) \<union> set es"
  by (induction es arbitrary: G) (auto simp: edges_add_edge)

lemma set_G_edges: "set (G_edges G) = {e \<in> set (dg_edges G). fst e \<in> set (dg_nodes G)}"
  by (force simp: G_edges_def successors_def)

subsection \<open>The topological sort of an acyclic graph\<close>

lemma remaining_mono: "D \<subseteq> D' \<Longrightarrow> remaining G D' v \<le> remaining G D v"
  unfolding remaining_def by (rule card_mono) auto

lemma remaining_pos: "e \<in> set (dg_edges G) \<Longrightarrow> e \<notin> D \<Longrightarrow> 0 < remaining G D (snd e)"
proof -
  assume a: "e \<in> set (dg_edges G)" "e \<notin> D"
  let ?S = "{x \<in> set (dg_edges G). snd x = snd e \<and> x \<notin> D}"
  have f: "finite ?S" by simp
  have "e \<in> ?S" using a by simp
  then have ne: "?S \<noteq> {}" by blast
  have "0 < card ?S" using f ne by (simp only: card_gt_0_iff simp_thms)
  then show ?thesis by (simp only: remaining_def)
qed

lemma remaining_insert:
  assumes "e \<in> set (dg_edges G)" and "e \<notin> D"
  shows "remaining G (insert e D) v = (if v = snd e then remaining G D v - 1 else remaining G D v)"
proof (cases "v = snd e")
  case True
  have "{x \<in> set (dg_edges G). snd x = v \<and> x \<notin> insert e D}
      = {x \<in> set (dg_edges G). snd x = v \<and> x \<notin> D} - {e}"
    by auto
  moreover have "e \<in> {x \<in> set (dg_edges G). snd x = v \<and> x \<notin> D}"
    using assms True by simp
  ultimately show ?thesis
    using True by (simp add: remaining_def)
next
  case False
  have "{x \<in> set (dg_edges G). snd x = v \<and> x \<notin> insert e D}
      = {x \<in> set (dg_edges G). snd x = v \<and> x \<notin> D}"
    using False by auto
  then show ?thesis using False by (simp add: remaining_def)
qed

lemma remaining_other: "\<forall>e\<in>X. snd e \<noteq> v \<Longrightarrow> remaining G (D \<union> X) v = remaining G D v"
proof -
  assume a: "\<forall>e\<in>X. snd e \<noteq> v"
  have "{x \<in> set (dg_edges G). snd x = v \<and> x \<notin> D \<union> X}
      = {x \<in> set (dg_edges G). snd x = v \<and> x \<notin> D}"
    using a by auto
  then show ?thesis by (simp add: remaining_def)
qed

lemma map_ok_delete:
  assumes "map_ok G D m" and "e \<in> set (dg_edges G)" and "e \<notin> D"
    and "remaining G (insert e D) (snd e) = 0"
  shows "map_ok G (insert e D) (AList.delete (snd e) m)"
  unfolding map_ok_def
proof (intro conjI allI)
  show "distinct (map fst (AList.delete (snd e) m))"
    using assms(1) by (simp add: map_ok_def distinct_delete)
  fix v
  show "map_of (AList.delete (snd e) m) v =
       (if remaining G (insert e D) v = 0 then None else Some (int (remaining G (insert e D) v)))"
  proof (cases "v = snd e")
    case True
    then show ?thesis using assms(4) by (simp add: delete_conv')
  next
    case False
    then show ?thesis
      using assms(1) remaining_insert [OF assms(2,3), of v]
      by (simp add: delete_conv' map_ok_def)
  qed
qed

lemma map_ok_update:
  assumes "map_ok G D m" and "e \<in> set (dg_edges G)" and "e \<notin> D"
    and "remaining G (insert e D) (snd e) \<noteq> 0"
  shows "map_ok G (insert e D) (AList.update (snd e) (int (remaining G (insert e D) (snd e))) m)"
  unfolding map_ok_def
proof (intro conjI allI)
  show "distinct (map fst (AList.update (snd e) (int (remaining G (insert e D) (snd e))) m))"
    using assms(1) by (simp add: map_ok_def distinct_update)
  fix v
  show "map_of (AList.update (snd e) (int (remaining G (insert e D) (snd e))) m) v =
       (if remaining G (insert e D) v = 0 then None else Some (int (remaining G (insert e D) v)))"
  proof (cases "v = snd e")
    case True
    then show ?thesis using assms(4) by (simp add: update_conv')
  next
    case False
    then show ?thesis
      using assms(1) remaining_insert [OF assms(2,3), of v]
      by (simp add: update_conv' map_ok_def)
  qed
qed

lemma relax_children_ok:
  assumes "map_ok G D m" and "distinct cs"
    and "\<forall>c\<in>set cs. (n, c) \<in> set (dg_edges G) \<and> (n, c) \<notin> D"
  shows "\<exists>m'. relax_children m z cs
           = Inr (m', z @ filter (\<lambda>c. remaining G (D \<union> {n} \<times> set cs) c = 0) cs) \<and>
         map_ok G (D \<union> {n} \<times> set cs) m'"
  using assms
proof (induction cs arbitrary: D m z)
  case Nil
  then show ?case by simp
next
  case (Cons c cs)
  define D1 where "D1 = insert (n, c) D"
  define D' where "D' = D \<union> {n} \<times> set (c # cs)"
  have e: "(n, c) \<in> set (dg_edges G)" "(n, c) \<notin> D" using Cons.prems(3) by simp_all
  have pos: "0 < remaining G D c" using remaining_pos [OF e] by simp
  have r1: "remaining G D1 c = remaining G D c - 1"
    unfolding D1_def using remaining_insert [OF e, of c] by simp
  have look: "map_of m c = Some (int (remaining G D c))"
    using Cons.prems(1) pos by (simp add: map_ok_def)
  have d1: "int (remaining G D c) - 1 = int (remaining G D1 c)"
    using pos r1 by simp
  have D': "D1 \<union> {n} \<times> set cs = D'" unfolding D1_def D'_def by auto
  have "remaining G (D1 \<union> {n} \<times> set cs) c = remaining G D1 c"
    using Cons.prems(2) by (intro remaining_other) auto
  then have same: "remaining G D' c = remaining G D1 c"
    unfolding D' .
  have cs: "distinct cs" "\<forall>c'\<in>set cs. (n, c') \<in> set (dg_edges G) \<and> (n, c') \<notin> D1"
    unfolding D1_def using Cons.prems(2,3) by auto
  show ?case
  proof (cases "remaining G D1 c = 0")
    case True
    have ok: "map_ok G D1 (AList.delete c m)"
      unfolding D1_def using map_ok_delete [OF Cons.prems(1) e] True [unfolded D1_def] by simp
    from Cons.IH [OF ok cs, of "z @ [c]"] obtain m' where
      m': "relax_children (AList.delete c m) (z @ [c]) cs
           = Inr (m', (z @ [c]) @ filter (\<lambda>c. remaining G D' c = 0) cs)"
      "map_ok G D' m'"
      unfolding D' by blast
    have step: "relax_children m z (c # cs) = relax_children (AList.delete c m) (z @ [c]) cs"
      using look d1 True by (simp add: Let_def delete_update_same)
    have filt: "z @ filter (\<lambda>c. remaining G D' c = 0) (c # cs)
        = (z @ [c]) @ filter (\<lambda>c. remaining G D' c = 0) cs"
      using same True by simp
    have "relax_children m z (c # cs) = Inr (m', z @ filter (\<lambda>c. remaining G D' c = 0) (c # cs))"
      unfolding step filt by (rule m'(1))
    with m'(2) show ?thesis unfolding D'_def by blast
  next
    case False
    have ok: "map_ok G D1 (AList.update c (int (remaining G D1 c)) m)"
      unfolding D1_def using map_ok_update [OF Cons.prems(1) e] False [unfolded D1_def] by simp
    from Cons.IH [OF ok cs, of z] obtain m' where
      m': "relax_children (AList.update c (int (remaining G D1 c)) m) z cs
           = Inr (m', z @ filter (\<lambda>c. remaining G D' c = 0) cs)"
      "map_ok G D' m'"
      unfolding D' by blast
    have step: "relax_children m z (c # cs)
        = relax_children (AList.update c (int (remaining G D1 c)) m) z cs"
      using look d1 False by (simp add: Let_def)
    have filt: "z @ filter (\<lambda>c. remaining G D' c = 0) (c # cs)
        = z @ filter (\<lambda>c. remaining G D' c = 0) cs"
      using same False by simp
    have "relax_children m z (c # cs) = Inr (m', z @ filter (\<lambda>c. remaining G D' c = 0) (c # cs))"
      unfolding step filt by (rule m'(1))
    with m'(2) show ?thesis unfolding D'_def by blast
  qed
qed

lemma newly_trans:
  assumes "D \<subseteq> D1" and "D1 \<subseteq> D2"
  shows "newly G D D2 = newly G D D1 \<union> newly G D1 D2"
    and "newly G D D1 \<inter> newly G D1 D2 = {}"
proof -
  have a: "\<And>v. remaining G D1 v \<le> remaining G D v" using assms(1) by (rule remaining_mono)
  have b: "\<And>v. remaining G D2 v \<le> remaining G D1 v" using assms(2) by (rule remaining_mono)
  show "newly G D D2 = newly G D D1 \<union> newly G D1 D2"
    unfolding newly_def
  proof (intro set_eqI iffI)
    fix c assume "c \<in> {c. remaining G D c \<noteq> 0 \<and> remaining G D2 c = 0}"
    then show "c \<in> {c. remaining G D c \<noteq> 0 \<and> remaining G D1 c = 0} \<union>
                  {c. remaining G D1 c \<noteq> 0 \<and> remaining G D2 c = 0}"
      by (cases "remaining G D1 c = 0") simp_all
  next
    fix c assume "c \<in> {c. remaining G D c \<noteq> 0 \<and> remaining G D1 c = 0} \<union>
                  {c. remaining G D1 c \<noteq> 0 \<and> remaining G D2 c = 0}"
    then show "c \<in> {c. remaining G D c \<noteq> 0 \<and> remaining G D2 c = 0}"
      using a [of c] b [of c] by auto
  qed
  show "newly G D D1 \<inter> newly G D1 D2 = {}"
    unfolding newly_def by auto
qed

lemma successors_set: "set (successors G n) = {c. (n, c) \<in> set (dg_edges G)}"
  by (force simp: successors_def)

lemma successors_distinct: "distinct (dg_edges G) \<Longrightarrow> distinct (successors G n)"
  unfolding successors_def
  by (rule distinct_map [THEN iffD2]) (auto simp: inj_on_def prod_eq_iff)

lemma edges_from_insert:
  "edges_from G (insert n P) = edges_from G P \<union> {n} \<times> set (successors G n)"
  by (auto simp: edges_from_def successors_set)

lemma edges_from_mono: "P \<subseteq> Q \<Longrightarrow> edges_from G P \<subseteq> edges_from G Q"
  by (auto simp: edges_from_def)

lemma newly_children:
  assumes "\<forall>c\<in>set cs. (n, c) \<in> set (dg_edges G) \<and> (n, c) \<notin> D"
  shows "set (filter (\<lambda>c. remaining G (D \<union> {n} \<times> set cs) c = 0) cs)
         = newly G D (D \<union> {n} \<times> set cs)"
proof (intro set_eqI iffI)
  fix c assume "c \<in> set (filter (\<lambda>c. remaining G (D \<union> {n} \<times> set cs) c = 0) cs)"
  then have c: "c \<in> set cs" and z: "remaining G (D \<union> {n} \<times> set cs) c = 0" by simp_all
  from assms c have "(n, c) \<in> set (dg_edges G)" "(n, c) \<notin> D" by simp_all
  from remaining_pos [OF this] have "remaining G D c \<noteq> 0" by simp
  with z show "c \<in> newly G D (D \<union> {n} \<times> set cs)" by (simp add: newly_def)
next
  fix c assume "c \<in> newly G D (D \<union> {n} \<times> set cs)"
  then have nz: "remaining G D c \<noteq> 0" and z: "remaining G (D \<union> {n} \<times> set cs) c = 0"
    by (simp_all add: newly_def)
  have "c \<in> set cs"
  proof (rule ccontr)
    assume "c \<notin> set cs"
    then have "\<forall>e\<in>{n} \<times> set cs. snd e \<noteq> c" by auto
    from remaining_other [OF this] nz z show False by simp
  qed
  with z show "c \<in> set (filter (\<lambda>c. remaining G (D \<union> {n} \<times> set cs) c = 0) cs)" by simp
qed

lemma process_generation_ok:
  assumes "distinct (dg_edges G)" and "map_ok G (edges_from G P) m" and "distinct gen"
    and "set gen \<inter> P = {}" and "set gen \<subseteq> set (dg_nodes G)"
  shows "\<exists>m' ws. process_generation G m z gen = Inr (m', z @ ws) \<and>
           map_ok G (edges_from G (P \<union> set gen)) m' \<and> distinct ws \<and>
           set ws = newly G (edges_from G P) (edges_from G (P \<union> set gen))"
  using assms(2-)
proof (induction gen arbitrary: P m z)
  case Nil
  have "newly G (edges_from G P) (edges_from G P) = {}" by (auto simp: newly_def)
  with Nil show ?case by simp
next
  case (Cons n gen)
  define D where "D = edges_from G P"
  define cs where "cs = successors G n"
  define D1 where "D1 = edges_from G (insert n P)"
  define D2 where "D2 = edges_from G (P \<union> set (n # gen))"
  have nP: "n \<notin> P" and nG: "n \<in> set (dg_nodes G)" using Cons.prems by auto
  have D1: "D \<union> {n} \<times> set cs = D1"
    unfolding D_def D1_def cs_def by (simp add: edges_from_insert)
  have D2: "edges_from G (insert n P \<union> set gen) = D2"
    unfolding D2_def by simp
  have dcs: "distinct cs" unfolding cs_def using assms(1) by (rule successors_distinct)
  have ecs: "\<forall>c\<in>set cs. (n, c) \<in> set (dg_edges G) \<and> (n, c) \<notin> D"
    unfolding cs_def D_def using nP by (auto simp: successors_set edges_from_def)
  have mD: "map_ok G D m" unfolding D_def by (rule Cons.prems(1))
  from relax_children_ok [OF mD dcs ecs, of z] obtain m1 where
    m1: "relax_children m z cs = Inr (m1, z @ filter (\<lambda>c. remaining G D1 c = 0) cs)"
    and ok1: "map_ok G D1 m1"
    unfolding D1 by blast
  define ws1 where "ws1 = filter (\<lambda>c. remaining G D1 c = 0) cs"
  have ws1: "distinct ws1" "set ws1 = newly G D D1"
    unfolding ws1_def using dcs newly_children [OF ecs] unfolding D1 by simp_all
  have g: "distinct gen" "set gen \<inter> insert n P = {}" "set gen \<subseteq> set (dg_nodes G)"
    using Cons.prems by auto
  from Cons.IH [OF ok1 [unfolded D1_def] g, of "z @ ws1"] obtain m' ws2 where
    r: "process_generation G m1 (z @ ws1) gen = Inr (m', (z @ ws1) @ ws2)"
    and ok2: "map_ok G D2 m'" and ws2: "distinct ws2" "set ws2 = newly G D1 D2"
    unfolding D2 D1_def [symmetric] by blast
  have sub: "D \<subseteq> D1" "D1 \<subseteq> D2"
    unfolding D_def D1_def D2_def by (auto intro!: edges_from_mono)
  have step: "process_generation G m z (n # gen) = process_generation G m1 (z @ ws1) gen"
    using nG m1 unfolding cs_def ws1_def by simp
  have 1: "process_generation G m z (n # gen) = Inr (m', z @ (ws1 @ ws2))"
    unfolding step r by simp
  have 2: "distinct (ws1 @ ws2)"
    using ws1 ws2 newly_trans(2) [OF sub, of G] by auto
  have 3: "set (ws1 @ ws2) = newly G D D2"
    using ws1 ws2 newly_trans(1) [OF sub, of G] by auto
  from 1 ok2 2 3 show ?case unfolding D_def D2_def by blast
qed

lemma remaining_nonzero_edge:
  assumes "remaining G D v \<noteq> 0"
  shows "\<exists>p. (p, v) \<in> set (dg_edges G) \<and> (p, v) \<notin> D"
proof -
  have "{e \<in> set (dg_edges G). snd e = v \<and> e \<notin> D} \<noteq> {}"
  proof
    assume "{e \<in> set (dg_edges G). snd e = v \<and> e \<notin> D} = {}"
    then have "remaining G D v = 0" by (simp only: remaining_def card.empty)
    with assms show False by simp
  qed
  then obtain e where "e \<in> set (dg_edges G)" "snd e = v" "e \<notin> D" by blast
  then have "(fst e, v) \<in> set (dg_edges G) \<and> (fst e, v) \<notin> D" by auto
  then show ?thesis by blast
qed

lemma no_source_free_set:
  assumes "acyclic (set es)" and "v \<in> S" and "\<And>v. v \<in> S \<Longrightarrow> \<exists>p\<in>S. (p, v) \<in> set es"
  shows False
proof -
  have "wf (set es)" using assms(1) by (simp add: finite_acyclic_wf)
  from wfE_min [OF this assms(2)] obtain z where "z \<in> S" "\<And>y. (y, z) \<in> set es \<Longrightarrow> y \<notin> S"
    by blast
  with assms(3) [of z] show False by blast
qed

lemma edges_respect_append:
  assumes "edges_respect G out"
    and "\<And>p v. v \<in> set zero \<Longrightarrow> (p, v) \<in> set (dg_edges G) \<Longrightarrow> p \<in> set out"
  shows "edges_respect G (out @ zero)"
  unfolding edges_respect_def
proof (intro allI impI)
  fix pre v post p
  assume split: "out @ zero = pre @ v # post" and e: "(p, v) \<in> set (dg_edges G)"
  from split consider us where "out = pre @ v # us" | us where "pre = out @ us" "zero = us @ v # post"
    by (auto simp: append_eq_append_conv2 append_eq_Cons_conv Cons_eq_append_conv)
  then show "p \<in> set pre"
  proof cases
    case 1
    with assms(1) e show ?thesis unfolding edges_respect_def by blast
  next
    case 2
    then have "v \<in> set zero" by simp
    from assms(2) [OF this e] 2 show ?thesis by simp
  qed
qed

lemma takeWhile_before:
  assumes "p \<in> set pre"
  shows "length (takeWhile (\<lambda>x. x \<noteq> p) (pre @ rest)) < length pre"
proof -
  have t: "takeWhile (\<lambda>x. x \<noteq> p) (pre @ rest) = takeWhile (\<lambda>x. x \<noteq> p) pre"
    using assms by (intro takeWhile_append1 [of p]) simp_all
  have "takeWhile (\<lambda>x. x \<noteq> p) pre \<noteq> pre"
  proof
    assume "takeWhile (\<lambda>x. x \<noteq> p) pre = pre"
    then have "\<forall>x\<in>set pre. x \<noteq> p" by simp
    with assms show False by blast
  qed
  moreover have "length (takeWhile (\<lambda>x. x \<noteq> p) pre) \<le> length pre"
    by (rule length_takeWhile_le)
  moreover have "takeWhile (\<lambda>x. x \<noteq> p) pre = take (length (takeWhile (\<lambda>x. x \<noteq> p) pre)) pre"
    by (rule takeWhile_eq_take)
  ultimately have "length (takeWhile (\<lambda>x. x \<noteq> p) pre) < length pre"
    by (metis le_neq_implies_less take_all order_refl)
  with t show ?thesis by simp
qed

lemma edges_respect_acyclic:
  assumes "edges_respect G out" and "\<And>e. e \<in> set (dg_edges G) \<Longrightarrow> snd e \<in> set out"
  shows "acyclic (set (dg_edges G))"
proof -
  have "acyclic ((set (dg_edges G))\<inverse>)"
  proof (rule acyclicI_order)
    fix a b assume "(a, b) \<in> (set (dg_edges G))\<inverse>"
    then have e: "(b, a) \<in> set (dg_edges G)" by simp
    from assms(2) [OF e] have "a \<in> set out" by simp
    from split_list_first [OF this] obtain pre post where
      s: "out = pre @ a # post" "a \<notin> set pre" by blast
    from assms(1) s(1) e have b: "b \<in> set pre" unfolding edges_respect_def by blast
    have "takeWhile (\<lambda>x. x \<noteq> a) out = pre"
      unfolding s(1) using s(2) by (auto simp: takeWhile_tail)
    moreover have "length (takeWhile (\<lambda>x. x \<noteq> b) out) < length pre"
      unfolding s(1) using b by (rule takeWhile_before)
    ultimately show "length (takeWhile (\<lambda>x. x \<noteq> b) out) < length (takeWhile (\<lambda>x. x \<noteq> a) out)"
      by simp
  qed
  then show ?thesis by simp
qed

text \<open>
  The \<open>while\<close> loop, started in a state that satisfies the invariant, either returns a
  list of all the nodes, each once and after its predecessors, or raises
  \<open>NetworkXUnfeasible\<close>, and then there is a non-empty set of nodes each of which has a
  predecessor in the set.
\<close>

lemma topological_loop_result:
  "wf_digraph G \<Longrightarrow>
   map_ok G (edges_from G (set out)) m \<Longrightarrow> distinct (out @ zero) \<Longrightarrow>
   set out \<union> set zero = {v \<in> set (dg_nodes G). remaining G (edges_from G (set out)) v = 0} \<Longrightarrow>
   edges_respect G out \<Longrightarrow>
   (\<exists>order. topological_loop G m zero out = Inr order \<and> distinct order \<and>
      set order = set (dg_nodes G) \<and> edges_respect G order) \<or>
   (topological_loop G m zero out = Inl NetworkXUnfeasible \<and>
      (\<exists>S. S \<noteq> {} \<and> (\<forall>v\<in>S. \<exists>p\<in>S. (p, v) \<in> set (dg_edges G))))"
proof (induction G m zero out rule: topological_loop.induct)
  case (1 G m zero out)
  define D where "D = edges_from G (set out)"
  have wf: "distinct (dg_edges G)"
    "\<And>e. e \<in> set (dg_edges G) \<Longrightarrow> fst e \<in> set (dg_nodes G) \<and> snd e \<in> set (dg_nodes G)"
    using "1.prems"(1) by (simp_all add: wf_digraph_def)
  have mo: "map_ok G D m" unfolding D_def by (rule "1.prems"(2))
  have zs: "set out \<union> set zero = {v \<in> set (dg_nodes G). remaining G D v = 0}"
    unfolding D_def by (rule "1.prems"(4))
  have preds: "p \<in> set out" if "v \<in> set zero" "(p, v) \<in> set (dg_edges G)" for p v
  proof (rule ccontr)
    assume "p \<notin> set out"
    then have "(p, v) \<notin> D" by (simp add: D_def edges_from_def)
    from remaining_pos [OF that(2) this] have "remaining G D v \<noteq> 0" by simp
    moreover from that(1) zs have "remaining G D v = 0" by blast
    ultimately show False by simp
  qed
  show ?case
  proof (cases "zero = []")
    case True
    define S where "S = {v. remaining G D v \<noteq> 0}"
    have inS: "\<exists>p\<in>S. (p, w) \<in> set (dg_edges G)" if "w \<in> S" for w
    proof -
      from that have "remaining G D w \<noteq> 0" by (simp add: S_def)
      from remaining_nonzero_edge [OF this] obtain p where
        p: "(p, w) \<in> set (dg_edges G)" "(p, w) \<notin> D" by blast
      from p have "p \<notin> set out" by (auto simp: D_def edges_from_def)
      moreover from wf(2) [OF p(1)] have "p \<in> set (dg_nodes G)" by simp
      ultimately have "remaining G D p \<noteq> 0" using zs True by auto
      with p(1) show ?thesis by (auto simp: S_def)
    qed
    show ?thesis
    proof (cases "m = []")
      case m: True
      have all0: "remaining G D v = 0" for v
        using mo m by (simp add: map_ok_def split: if_splits)
      have "set out = set (dg_nodes G)" using zs True all0 by auto
      moreover have "distinct out" using "1.prems"(3) by simp
      moreover have "topological_loop G m zero out = Inr out"
        using True m by (subst topological_loop.simps) simp
      ultimately show ?thesis using "1.prems"(5) by blast
    next
      case False
      then obtain k d ms where "m = (k, d) # ms" by (cases m) auto
      then have "map_of m k = Some d" by simp
      with mo have "remaining G D k \<noteq> 0" by (auto simp: map_ok_def split: if_splits)
      then have "S \<noteq> {}" by (auto simp: S_def)
      moreover have "topological_loop G m zero out = Inl NetworkXUnfeasible"
        using True False by (subst topological_loop.simps) simp
      ultimately show ?thesis using inS by blast
    qed
  next
    case False
    have g: "distinct zero" "set zero \<inter> set out = {}" "set zero \<subseteq> set (dg_nodes G)"
      using "1.prems"(3) zs by auto
    define D' where "D' = edges_from G (set out \<union> set zero)"
    from process_generation_ok [OF wf(1) "1.prems"(2) g, of "[]"] obtain m' ws where
      r: "process_generation G m [] zero = Inr (m', ws)"
      and ok: "map_ok G D' m'" and ws: "distinct ws" "set ws = newly G D D'"
      unfolding D_def D'_def by auto
    have sub: "D \<subseteq> D'" unfolding D_def D'_def by (auto intro!: edges_from_mono)
    have a: "map_ok G (edges_from G (set (out @ zero))) m'"
      using ok unfolding D'_def by simp
    have old0: "v \<in> set out \<union> set zero \<Longrightarrow> remaining G D v = 0" for v
      using zs by blast
    have b: "distinct ((out @ zero) @ ws)"
      using "1.prems"(3) ws old0 by (auto simp: newly_def)
    have c: "set (out @ zero) \<union> set ws
        = {v \<in> set (dg_nodes G). remaining G (edges_from G (set (out @ zero))) v = 0}"
    proof (intro set_eqI iffI)
      fix v assume "v \<in> set (out @ zero) \<union> set ws"
      then consider "v \<in> set out \<union> set zero" | "v \<in> newly G D D'" using ws by auto
      then have "v \<in> set (dg_nodes G) \<and> remaining G D' v = 0"
      proof cases
        case 1
        then have "v \<in> set (dg_nodes G)" "remaining G D v = 0" using zs by auto
        with remaining_mono [OF sub, of G v] show ?thesis by simp
      next
        case 2
        then have nz: "remaining G D v \<noteq> 0" and z: "remaining G D' v = 0"
          by (simp_all add: newly_def)
        from remaining_nonzero_edge [OF nz] obtain p where "(p, v) \<in> set (dg_edges G)" by blast
        from wf(2) [OF this] z show ?thesis by simp
      qed
      then show "v \<in> {v \<in> set (dg_nodes G). remaining G (edges_from G (set (out @ zero))) v = 0}"
        unfolding D'_def by simp
    next
      fix v assume "v \<in> {v \<in> set (dg_nodes G). remaining G (edges_from G (set (out @ zero))) v = 0}"
      then have v: "v \<in> set (dg_nodes G)" "remaining G D' v = 0" unfolding D'_def by simp_all
      show "v \<in> set (out @ zero) \<union> set ws"
      proof (cases "remaining G D v = 0")
        case True
        with v zs show ?thesis by auto
      next
        case False
        with v ws show ?thesis by (simp add: newly_def)
      qed
    qed
    have d: "edges_respect G (out @ zero)"
      using "1.prems"(5) preds by (rule edges_respect_append)
    have step: "topological_loop G m zero out = topological_loop G m' ws (out @ zero)"
      using False r by (subst topological_loop.simps) simp
    from "1.IH" [OF False r refl "1.prems"(1) a b c d] show ?thesis
      unfolding step .
  qed
qed

lemma in_degree_remaining:
  assumes "distinct (dg_edges G)"
  shows "in_degree G v = int (remaining G {} v)"
proof -
  have "distinct (filter (\<lambda>e. snd e = v) (dg_edges G))"
    using assms by simp
  from distinct_card [OF this]
  have "length (filter (\<lambda>e. snd e = v) (dg_edges G)) = card (set (filter (\<lambda>e. snd e = v) (dg_edges G)))"
    by (rule sym)
  also have "set (filter (\<lambda>e. snd e = v) (dg_edges G)) = {e \<in> set (dg_edges G). snd e = v \<and> e \<notin> {}}"
    by auto
  finally show ?thesis by (simp add: in_degree_def remaining_def)
qed

lemma topological_sort_result:
  assumes "wf_digraph G"
  shows "(\<exists>order. topological_sort G = Inr order \<and> distinct order \<and>
            set order = set (dg_nodes G) \<and> edges_respect G order) \<or>
         (topological_sort G = Inl NetworkXUnfeasible \<and>
            (\<exists>S. S \<noteq> {} \<and> (\<forall>v\<in>S. \<exists>p\<in>S. (p, v) \<in> set (dg_edges G))))"
proof -
  have wf: "distinct (dg_nodes G)" "distinct (dg_edges G)"
    "\<And>e. e \<in> set (dg_edges G) \<Longrightarrow> snd e \<in> set (dg_nodes G)"
    using assms(1) by (simp_all add: wf_digraph_def)
  define m where "m = map (\<lambda>v. (v, in_degree G v)) (filter (\<lambda>v. in_degree G v > 0) (dg_nodes G))"
  define zero where "zero = filter (\<lambda>v. in_degree G v = 0) (dg_nodes G)"
  have e: "edges_from G (set []) = {}" by (simp add: edges_from_def)
  have keys: "map fst m = filter (\<lambda>v. in_degree G v > 0) (dg_nodes G)"
    unfolding m_def by (simp add: comp_def)
  have look: "map_of m v = (if remaining G {} v = 0 then None else Some (int (remaining G {} v)))" for v
  proof (cases "v \<in> set (dg_nodes G) \<and> in_degree G v > 0")
    case True
    then have "map_of m v = Some (in_degree G v)"
      unfolding m_def by (simp add: map_of_map_restrict)
    with True show ?thesis by (simp add: in_degree_remaining [OF wf(2)])
  next
    case False
    then have "v \<notin> fst ` set m" unfolding m_def by (auto simp: image_iff)
    then have n: "map_of m v = None" by (simp add: map_of_eq_None_iff)
    have "remaining G {} v = 0"
    proof (rule ccontr)
      assume nz: "remaining G {} v \<noteq> 0"
      from remaining_nonzero_edge [OF nz] obtain p where "(p, v) \<in> set (dg_edges G)" by blast
      from wf(3) [OF this] have "v \<in> set (dg_nodes G)" by simp
      with False nz show False by (simp add: in_degree_remaining [OF wf(2)])
    qed
    with n show ?thesis by simp
  qed
  have a: "map_ok G (edges_from G (set [])) m"
    unfolding e map_ok_def using look keys wf(1) by simp
  have b: "distinct ([] @ zero)" unfolding zero_def using wf(1) by simp
  have c: "set [] \<union> set zero = {v \<in> set (dg_nodes G). remaining G (edges_from G (set [])) v = 0}"
    unfolding e zero_def by (auto simp: in_degree_remaining [OF wf(2)])
  have d: "edges_respect G []" by (simp add: edges_respect_def)
  from topological_loop_result [OF assms a b c d]
  show ?thesis unfolding topological_sort_def m_def zero_def .
qed

text \<open>
  So the sort succeeds on an acyclic graph, and raises \<open>NetworkXUnfeasible\<close> on a graph
  with a cycle.
\<close>

lemma topological_sort_ok:
  assumes "wf_digraph G" and "acyclic (set (dg_edges G))"
  shows "\<exists>order. topological_sort G = Inr order \<and> distinct order \<and>
     set order = set (dg_nodes G)"
proof -
  have "\<not> (\<exists>S. S \<noteq> {} \<and> (\<forall>v\<in>S. \<exists>p\<in>S. (p, v) \<in> set (dg_edges G)))"
  proof
    assume "\<exists>S. S \<noteq> {} \<and> (\<forall>v\<in>S. \<exists>p\<in>S. (p, v) \<in> set (dg_edges G))"
    then obtain S v where "v \<in> S" "\<And>v. v \<in> S \<Longrightarrow> \<exists>p\<in>S. (p, v) \<in> set (dg_edges G)"
      by blast
    from no_source_free_set [OF assms(2) this] show False .
  qed
  with topological_sort_result [OF assms(1)] show ?thesis by blast
qed

lemma topological_sort_cyclic:
  assumes "wf_digraph G" and "\<not> acyclic (set (dg_edges G))"
  shows "topological_sort G = Inl NetworkXUnfeasible"
proof -
  have "\<not> (\<exists>order. topological_sort G = Inr order \<and> distinct order \<and>
            set order = set (dg_nodes G) \<and> edges_respect G order)"
  proof
    assume "\<exists>order. topological_sort G = Inr order \<and> distinct order \<and>
            set order = set (dg_nodes G) \<and> edges_respect G order"
    then obtain order where o: "set order = set (dg_nodes G)" "edges_respect G order" by blast
    have "snd e \<in> set order" if "e \<in> set (dg_edges G)" for e
      using that assms(1) o(1) by (simp add: wf_digraph_def)
    from edges_respect_acyclic [OF o(2) this] assms(2) show False by simp
  qed
  with topological_sort_result [OF assms(1)] show ?thesis by blast
qed

section \<open>Properties of the Structure Extractor\<close>

lemma pairs_after_distinct_ends:
  "(u, v) \<in> set (pairs_after xs) \<Longrightarrow> u \<noteq> v \<and> u \<in> set xs \<and> v \<in> set xs"
  by (induction xs) auto

lemma find_dependencies_ends:
  assumes "(u, v) \<in> set (find_dependencies chunks entities)"
  shows "u \<noteq> v \<and> u \<in> set entities \<and> v \<in> set entities"
proof -
  from assms obtain chunk where
    "(u, v) \<in> set (pairs_after (filter (\<lambda>e. contains (lower e) (lower chunk)) entities))"
    by (auto simp: find_dependencies_def Let_def)
  from pairs_after_distinct_ends [OF this] show ?thesis by simp
qed

lemma case_prod_eta_edge: "(\<lambda>G (source, target). add_edge (source, target) G) = (\<lambda>G e. add_edge e G)"
  by (auto simp: fun_eq_iff)

text \<open>
  Claim C9. For every chunk list and every entity set (in any iteration order), the
  dependency graph that the Structure Extractor's \<open>process\<close> step returns has both
  endpoints of every edge in its node list, and no edge joins an entity to itself.
\<close>

theorem structure_process_edges:
  "\<forall>(u, v)\<in>set (gd_edges (structure_process chunks entities)).
     u \<in> set (gd_nodes (structure_process chunks entities)) \<and>
     v \<in> set (gd_nodes (structure_process chunks entities)) \<and> u \<noteq> v"
proof -
  let ?deps = "find_dependencies chunks entities"
  let ?G = "foldl (\<lambda>G e. add_edge e G) (foldl (\<lambda>G entity. add_node entity G) empty_digraph entities) ?deps"
  have n: "gd_nodes (structure_process chunks entities) = dg_nodes ?G"
    and e: "gd_edges (structure_process chunks entities) = G_edges ?G"
    by (simp_all add: structure_process_def build_graph_def Let_def case_prod_eta_edge)
  have es: "set (dg_edges ?G) = set ?deps"
    by (simp add: edges_fold_add_edge edges_fold_add_node empty_digraph_def)
  have ns: "fst ` set ?deps \<union> snd ` set ?deps \<subseteq> set (dg_nodes ?G)"
    by (auto simp: nodes_fold_add_edge)
  show ?thesis
  proof (clarify)
    fix u v assume "(u, v) \<in> set (gd_edges (structure_process chunks entities))"
    then have d: "(u, v) \<in> set ?deps"
      using es by (simp add: e set_G_edges)
    from find_dependencies_ends [OF d] have "u \<noteq> v" by simp
    moreover from d ns have "u \<in> set (dg_nodes ?G)" "v \<in> set (dg_nodes ?G)"
      by force+
    ultimately show "u \<in> set (gd_nodes (structure_process chunks entities)) \<and>
     v \<in> set (gd_nodes (structure_process chunks entities)) \<and> u \<noteq> v"
      by (simp add: n)
  qed
qed

theorem structure_process_edges_witness:
  "gd_edges (structure_process [''class Foo uses class Bar'', ''class Bar calls class Baz'']
     [''Foo'', ''Bar'', ''Baz'']) = [(''Foo'', ''Bar''), (''Bar'', ''Baz'')] \<and>
   gd_nodes (structure_process [''class Foo uses class Bar'', ''class Bar calls class Baz'']
     [''Foo'', ''Bar'', ''Baz'']) = [''Foo'', ''Bar'', ''Baz''] \<and>
   ''Foo'' \<in> set (gd_nodes (structure_process
     [''class Foo uses class Bar'', ''class Bar calls class Baz''] [''Foo'', ''Bar'', ''Baz''])) \<and>
   ''Bar'' \<in> set (gd_nodes (structure_process
     [''class Foo uses class Bar'', ''class Bar calls class Baz''] [''Foo'', ''Bar'', ''Baz''])) \<and>
   ''Foo'' \<noteq> ''Bar''"
proof -
  let ?g = "structure_process [''class Foo uses class Bar'', ''class Bar calls class Baz'']
      [''Foo'', ''Bar'', ''Baz'']"
  have e: "gd_edges ?g = [(''Foo'', ''Bar''), (''Bar'', ''Baz'')]"
    by code_simp
  have n: "gd_nodes ?g = [''Foo'', ''Bar'', ''Baz'']"
    by code_simp
  have "(''Foo'', ''Bar'') \<in> set (gd_edges ?g)"
    unfolding e by simp
  with structure_process_edges
    [of "[''class Foo uses class Bar'', ''class Bar calls class Baz'']" "[''Foo'', ''Bar'', ''Baz'']"]
  have "''Foo'' \<in> set (gd_nodes ?g) \<and> ''Bar'' \<in> set (gd_nodes ?g) \<and> ''Foo'' \<noteq> ''Bar''"
    by blast
  with e n show ?thesis by blast
qed

lemma find_dependencies_no_entities: "find_dependencies chunks [] = []"
  by (induction chunks) (simp_all add: find_dependencies_def)

lemma structure_process_no_entities: "structure_process chunks [] = empty_graph"
  by (simp add: structure_process_def find_dependencies_no_entities build_graph_def
      empty_digraph_def empty_graph_def G_edges_def)

text \<open>
  Claim C7. If the entity set is empty, \<open>find_dependencies\<close> returns the empty sequence for
  every chunk list, the graph built from it is empty, and on that graph
  \<open>build_execution_flow\<close>, \<open>extract_key_components\<close> and \<open>extract_key_functions\<close> return
  their fixed fallback lists.
\<close>

theorem empty_entities_fallbacks:
  "find_dependencies chunks [] = [] \<and>
   structure_process chunks [] = empty_graph \<and>
   build_execution_flow (structure_process chunks []) =
     Inr [''System initializes'', ''Processes input'', ''Returns output''] \<and>
   extract_key_components (structure_process chunks []) =
     [''core system'', ''input handler'', ''output formatter''] \<and>
   extract_key_functions (structure_process chunks []) = [''main'', ''init'', ''run'']"
  by (simp add: find_dependencies_no_entities structure_process_no_entities empty_graph_def
      build_execution_flow_def extract_key_components_def extract_key_functions_def)

section \<open>Properties of the Flow Reasoner\<close>

lemma lower_getUser: "lower ''getUser'' = ''getuser''"
  by code_simp
lemma lower_setConfig: "lower ''setConfig'' = ''setconfig''"
  by code_simp
lemma lower_Widget: "lower ''Widget'' = ''widget''"
  by code_simp

lemma kw_getUser: "is_function_name ''getUser''"
  by (simp add: is_function_name_def lower_getUser function_keywords_def)
lemma kw_setConfig: "\<not> is_function_name ''setConfig''"
  by (simp add: is_function_name_def lower_setConfig function_keywords_def)
lemma kw_Widget: "is_function_name ''Widget''"
  by (simp add: is_function_name_def lower_Widget function_keywords_def)

text \<open>
  Claim C3 says that on the nodes \<open>getUser\<close>, \<open>setConfig\<close>, \<open>Widget\<close> the result is
  \<open>["getUser"]\<close>. It is not: \<open>"widget"\<close> contains the keyword \<open>"get"\<close>, so \<open>Widget\<close> is a
  match as well.
\<close>

theorem extract_key_functions_example_counterexample:
  "extract_key_functions user_config_widget \<noteq> [''getUser''] \<and>
   ''Widget'' \<in> set (extract_key_functions user_config_widget)"
  using kw_getUser kw_setConfig kw_Widget
  by (simp add: extract_key_functions_def is_function_name_def user_config_widget_def)

text \<open>
  Claim C3, amended. On a graph whose node list holds exactly \<open>getUser\<close>, \<open>setConfig\<close> and
  \<open>Widget\<close>, each once and in any order, \<open>extract_key_functions\<close> returns the two keyword
  matches \<open>getUser\<close> and \<open>Widget\<close> in node order; \<open>setConfig\<close> does not appear.
\<close>

theorem extract_key_functions_example:
  assumes "set (gd_nodes g) = {''getUser'', ''setConfig'', ''Widget''}" and "distinct (gd_nodes g)"
  shows "extract_key_functions g = filter (\<lambda>n. n \<noteq> ''setConfig'') (gd_nodes g) \<and>
         set (extract_key_functions g) = {''getUser'', ''Widget''} \<and>
         length (extract_key_functions g) = 2"
proof -
  let ?f = "filter (\<lambda>node. list_ex (\<lambda>kw. contains kw (lower node)) function_keywords) (gd_nodes g)"
  have f: "?f = filter (\<lambda>n. n \<noteq> ''setConfig'') (gd_nodes g)"
  proof (rule filter_cong [OF refl])
    fix x assume "x \<in> set (gd_nodes g)"
    with assms(1) have "x = ''getUser'' \<or> x = ''setConfig'' \<or> x = ''Widget''" by simp
    then show "list_ex (\<lambda>kw. contains kw (lower x)) function_keywords = (x \<noteq> ''setConfig'')"
      using kw_getUser kw_setConfig kw_Widget unfolding is_function_name_def by auto
  qed
  have s: "set ?f = {''getUser'', ''Widget''}"
    unfolding f using assms(1) by auto
  have d: "distinct ?f" using assms(2) by simp
  have "length ?f = card (set ?f)"
    using distinct_card [OF d] by (rule sym)
  also have "\<dots> = 2" unfolding s by simp
  finally have l: "length ?f = 2" .
  then have ne: "?f \<noteq> []" by auto
  have e: "extract_key_functions g = ?f"
    using ne l by (simp add: extract_key_functions_def Let_def)
  show ?thesis using e f s l by simp
qed

theorem extract_key_functions_example_witness:
  "set (gd_nodes \<lparr>gd_nodes = [''Widget'', ''setConfig'', ''getUser''], gd_edges = [], gd_components = []\<rparr>)
     = {''getUser'', ''setConfig'', ''Widget''} \<and>
   extract_key_functions \<lparr>gd_nodes = [''Widget'', ''setConfig'', ''getUser''], gd_edges = [], gd_components = []\<rparr>
     = [''Widget'', ''getUser'']"
proof -
  let ?g = "\<lparr>gd_nodes = [''Widget'', ''setConfig'', ''getUser''], gd_edges = [], gd_components = []\<rparr>"
  have a: "set (gd_nodes ?g) = {''getUser'', ''setConfig'', ''Widget''}" by auto
  have b: "distinct (gd_nodes ?g)" by simp
  from extract_key_functions_example [OF a b] a show ?thesis by simp
qed

lemma graph_of_cycle3:
  "graph_of cycle3 = \<lparr>dg_nodes = [''a'', ''b'', ''c''],
     dg_edges = [(''a'', ''b''), (''b'', ''c''), (''c'', ''a'')]\<rparr>"
  by (simp add: graph_of_def cycle3_def add_edges_from_def add_nodes_from_def add_edge_def
      add_node_def empty_digraph_def)

lemma topological_sort_cycle3: "topological_sort (graph_of cycle3) = Inl NetworkXUnfeasible"
  by (simp add: graph_of_cycle3 topological_sort_def in_degree_def)

lemma flow_cycle3: "build_execution_flow cycle3 = Inl NetworkXUnfeasible"
proof -
  have n: "gd_nodes cycle3 = [''a'', ''b'', ''c'']" by (simp add: cycle3_def)
  show ?thesis
    by (simp add: build_execution_flow_def topological_sort_cycle3 n)
qed

text \<open>
  Claim C2 says that on a graph with a cycle \<open>build_execution_flow\<close> falls back to the first
  10 nodes and raises nothing. On the cycle of three nodes the topological sort raises
  \<open>NetworkXUnfeasible\<close>, which the handler for \<open>NetworkXError\<close> does not catch: the call
  raises it. (It does so on every graph with a cycle and a non-empty node list, see
  \<open>build_execution_flow_cyclic\<close> below.)
\<close>

theorem build_execution_flow_cycle_raises:
  "build_execution_flow cycle3 = Inl NetworkXUnfeasible"
  by (rule flow_cycle3)

subsection \<open>The flow of graphs with and without a cycle\<close>

lemma wf_add_node: "wf_digraph G \<Longrightarrow> wf_digraph (add_node n G)"
  by (auto simp: wf_digraph_def add_node_def)

lemma wf_add_edge: "wf_digraph G \<Longrightarrow> wf_digraph (add_edge e G)"
proof -
  assume "wf_digraph G"
  then have w: "wf_digraph (add_node (snd e) (add_node (fst e) G))"
    by (intro wf_add_node)
  have n: "fst e \<in> set (dg_nodes (add_node (snd e) (add_node (fst e) G)))"
    "snd e \<in> set (dg_nodes (add_node (snd e) (add_node (fst e) G)))"
    by (simp_all add: nodes_add_node)
  show ?thesis
    using w n unfolding add_edge_def Let_def wf_digraph_def by auto
qed

lemma wf_fold_add_node: "wf_digraph G \<Longrightarrow> wf_digraph (foldl (\<lambda>G n. add_node n G) G ns)"
  by (induction ns arbitrary: G) (simp_all add: wf_add_node)

lemma wf_fold_add_edge: "wf_digraph G \<Longrightarrow> wf_digraph (foldl (\<lambda>G e. add_edge e G) G es)"
  by (induction es arbitrary: G) (simp_all add: wf_add_edge)

lemma wf_graph_of: "wf_digraph (graph_of g)"
proof -
  have "wf_digraph (empty_digraph :: string digraph)"
    by (simp add: wf_digraph_def empty_digraph_def)
  then show ?thesis
    unfolding graph_of_def add_edges_from_def add_nodes_from_def
    by (intro wf_fold_add_edge wf_fold_add_node)
qed

lemma edges_graph_of: "set (dg_edges (graph_of g)) = set (gd_edges g)"
  by (simp add: graph_of_def add_edges_from_def add_nodes_from_def edges_fold_add_edge
      edges_fold_add_node empty_digraph_def)

lemma nodes_graph_of:
  "set (dg_nodes (graph_of g)) = set (gd_nodes g) \<union> fst ` set (gd_edges g) \<union> snd ` set (gd_edges g)"
  by (simp add: graph_of_def add_edges_from_def add_nodes_from_def nodes_fold_add_edge
      nodes_fold_add_node empty_digraph_def)

lemma build_execution_flow_order:
  assumes "edges_within_nodes g" and "acyclic (set (gd_edges g))" and "gd_nodes g \<noteq> []"
  shows "\<exists>order. build_execution_flow g = Inr (flow_steps order) \<and> distinct order \<and>
           set order = set (gd_nodes g)"
proof -
  have ac: "acyclic (set (dg_edges (graph_of g)))"
    using assms(2) by (simp add: edges_graph_of)
  from topological_sort_ok [OF wf_graph_of ac] obtain order where
    o: "topological_sort (graph_of g) = Inr order" "distinct order"
       "set order = set (dg_nodes (graph_of g))"
    by blast
  have "set (dg_nodes (graph_of g)) = set (gd_nodes g)"
    using assms(1) unfolding nodes_graph_of edges_within_nodes_def by force
  moreover have "build_execution_flow g = Inr (flow_steps order)"
    using assms(3) o(1) by (simp add: build_execution_flow_def Let_def)
  ultimately show ?thesis using o by auto
qed

lemma build_execution_flow_cyclic:
  assumes "gd_nodes g \<noteq> []" and "\<not> acyclic (set (gd_edges g))"
  shows "build_execution_flow g = Inl NetworkXUnfeasible"
proof -
  have "\<not> acyclic (set (dg_edges (graph_of g)))"
    using assms(2) by (simp add: edges_graph_of)
  from topological_sort_cyclic [OF wf_graph_of this] assms(1) show ?thesis
    by (simp add: build_execution_flow_def Let_def)
qed

lemma length_flow_steps: "length (flow_steps order) = min 8 (length order)"
  by (simp add: flow_steps_def)

lemma nth_flow_steps:
  "i < length order \<Longrightarrow> i < 8 \<Longrightarrow> flow_steps order ! i = flow_step (length order) (i, order ! i)"
  by (simp add: flow_steps_def nth_enumerate_eq)

lemma startswith_append: "startswith (p @ s) p"
  by (induction p) simp_all

text \<open>
  Claim C6. For every acyclic dependency graph with \<open>n\<close> nodes, \<open>2 \<le> n \<le> 8\<close>,
  \<open>build_execution_flow\<close> returns exactly \<open>n\<close> steps: the first starts with
  \<open>"Initialize "\<close>, the last with \<open>"Return result from "\<close>, every other one with
  \<open>"Process "\<close>.
\<close>

theorem build_execution_flow_acyclic:
  assumes "edges_within_nodes g" and "acyclic (set (gd_edges g))"
    and "n = card (set (gd_nodes g))" and "2 \<le> n" and "n \<le> 8"
  shows "\<exists>steps. build_execution_flow g = Inr steps \<and> length steps = n \<and>
           startswith (steps ! 0) ''Initialize '' \<and>
           startswith (steps ! (n - 1)) ''Return result from '' \<and>
           (\<forall>i. 0 < i \<and> i < n - 1 \<longrightarrow> startswith (steps ! i) ''Process '')"
proof -
  have ne: "gd_nodes g \<noteq> []" using assms(3,4) by auto
  from build_execution_flow_order [OF assms(1,2) ne] obtain order where
    o: "build_execution_flow g = Inr (flow_steps order)" "distinct order"
       "set order = set (gd_nodes g)"
    by blast
  have len: "length order = n"
    using distinct_card [OF o(2)] o(3) assms(3) by simp
  have l: "length (flow_steps order) = n"
    using len assms(5) by (simp add: length_flow_steps)
  have first: "startswith (flow_steps order ! 0) ''Initialize ''"
    using len assms(4) nth_flow_steps [of 0 order] startswith_append [of "''Initialize ''"]
    by simp
  have lst: "startswith (flow_steps order ! (n - 1)) ''Return result from ''"
    using len assms(4,5) nth_flow_steps [of "n - 1" order]
      startswith_append [of "''Return result from ''"]
    by simp
  have mid: "startswith (flow_steps order ! i) ''Process ''" if "0 < i" "i < n - 1" for i
  proof -
    have "flow_steps order ! i = ''Process '' @ order ! i"
      using that len assms(5) nth_flow_steps [of i order] by simp
    then show ?thesis using startswith_append [of "''Process ''"] by simp
  qed
  from o(1) l first lst mid show ?thesis by blast
qed

lemma acyclic_chain3: "acyclic (set (gd_edges chain3))"
proof (rule acyclicI_order)
  fix a b assume "(a, b) \<in> set (gd_edges chain3)"
  then show "(if b = ''Foo'' then 2 else if b = ''Bar'' then 1 else (0::nat))
      < (if a = ''Foo'' then 2 else if a = ''Bar'' then 1 else 0)"
    by (auto simp: chain3_def)
qed

lemma flow_chain3:
  "build_execution_flow chain3 = Inr [''Initialize Foo'', ''Process Bar'', ''Return result from Baz'']"
  by code_simp

theorem build_execution_flow_acyclic_witness:
  "edges_within_nodes chain3 \<and> acyclic (set (gd_edges chain3)) \<and>
   card (set (gd_nodes chain3)) = 3 \<and>
   build_execution_flow chain3 = Inr [''Initialize Foo'', ''Process Bar'', ''Return result from Baz''] \<and>
   (\<exists>steps. build_execution_flow chain3 = Inr steps \<and> length steps = 3 \<and>
      startswith (steps ! 0) ''Initialize '' \<and> startswith (steps ! 1) ''Process '' \<and>
      startswith (steps ! 2) ''Return result from '')"
proof -
  have w: "edges_within_nodes chain3"
    by (simp add: edges_within_nodes_def chain3_def)
  have c: "3 = card (set (gd_nodes chain3))"
    by (simp add: chain3_def)
  from build_execution_flow_acyclic [OF w acyclic_chain3 c]
  obtain steps where s: "build_execution_flow chain3 = Inr steps" "length steps = 3"
    "startswith (steps ! 0) ''Initialize ''" "startswith (steps ! (3 - 1)) ''Return result from ''"
    "\<forall>i. 0 < i \<and> i < 3 - 1 \<longrightarrow> startswith (steps ! i) ''Process ''"
    by auto
  from s(5) have "startswith (steps ! 1) ''Process ''" by simp
  with s have "\<exists>steps. build_execution_flow chain3 = Inr steps \<and> length steps = 3 \<and>
      startswith (steps ! 0) ''Initialize '' \<and> startswith (steps ! 1) ''Process '' \<and>
      startswith (steps ! 2) ''Return result from ''"
    by auto
  with w acyclic_chain3 c flow_chain3 show ?thesis by simp
qed

text \<open>
  Claim C10. For every acyclic dependency graph with more than 8 nodes,
  \<open>build_execution_flow\<close> returns exactly 8 steps, and none of them starts with
  \<open>"Return result from"\<close>.
\<close>

theorem build_execution_flow_truncated:
  assumes "edges_within_nodes g" and "acyclic (set (gd_edges g))"
    and "8 < card (set (gd_nodes g))"
  shows "\<exists>steps. build_execution_flow g = Inr steps \<and> length steps = 8 \<and>
           (\<forall>s\<in>set steps. \<not> startswith s ''Return result from'')"
proof -
  have ne: "gd_nodes g \<noteq> []" using assms(3) by auto
  from build_execution_flow_order [OF assms(1,2) ne] obtain order where
    o: "build_execution_flow g = Inr (flow_steps order)" "distinct order"
       "set order = set (gd_nodes g)"
    by blast
  have len: "8 < length order"
    using distinct_card [OF o(2)] o(3) assms(3) by simp
  have l: "length (flow_steps order) = 8"
    using len by (simp add: length_flow_steps)
  have "\<not> startswith s ''Return result from''" if "s \<in> set (flow_steps order)" for s
  proof -
    from that l obtain i where i: "i < 8" "s = flow_steps order ! i"
      by (metis in_set_conv_nth)
    have "s = flow_step (length order) (i, order ! i)"
      using i len nth_flow_steps [of i order] by simp
    then have "s = ''Initialize '' @ order ! i \<or> s = ''Process '' @ order ! i"
      using i(1) len by auto
    then show ?thesis by auto
  qed
  with o(1) l show ?thesis by blast
qed

lemma acyclic_nine_nodes: "acyclic (set (gd_edges nine_nodes))"
proof (rule acyclicI_order)
  fix a b assume "(a, b) \<in> set (gd_edges nine_nodes)"
  then show "(if b = ''c'' then 2 else if b = ''b'' then 1 else (0::nat))
      < (if a = ''c'' then 2 else if a = ''b'' then 1 else 0)"
    by (auto simp: nine_nodes_def)
qed

lemma flow_nine_nodes:
  "build_execution_flow nine_nodes = Inr [''Initialize c'', ''Process d'', ''Process e'',
     ''Process f'', ''Process g'', ''Process h'', ''Process i'', ''Process b'']"
  by code_simp

theorem build_execution_flow_truncated_witness:
  "edges_within_nodes nine_nodes \<and> acyclic (set (gd_edges nine_nodes)) \<and>
   card (set (gd_nodes nine_nodes)) = 9 \<and>
   build_execution_flow nine_nodes = Inr [''Initialize c'', ''Process d'', ''Process e'',
     ''Process f'', ''Process g'', ''Process h'', ''Process i'', ''Process b''] \<and>
   \<not> startswith ''Process b'' ''Return result from''"
proof -
  have w: "edges_within_nodes nine_nodes"
    by (simp add: edges_within_nodes_def nine_nodes_def)
  have c: "card (set (gd_nodes nine_nodes)) = 9"
    by (simp add: nine_nodes_def)
  then have c8: "8 < card (set (gd_nodes nine_nodes))" by simp
  from build_execution_flow_truncated [OF w acyclic_nine_nodes c8]
  have "\<forall>s\<in>set [''Initialize c'', ''Process d'', ''Process e'',
     ''Process f'', ''Process g'', ''Process h'', ''Process i'', ''Process b''].
      \<not> startswith s ''Return result from''"
    unfolding flow_nine_nodes by blast
  then have "\<not> startswith ''Process b'' ''Return result from''" by simp
  with w acyclic_nine_nodes c flow_nine_nodes show ?thesis by simp
qed

section \<open>Properties of the orchestrator\<close>

lemma flow_process_cycle3: "flow_process cycle3 = Inl NetworkXUnfeasible"
  by (simp add: flow_process_def flow_cycle3)

text \<open>
  Claim C4. Whenever one of the three stages raises an error, whatever the error and
  whichever the stage, \<open>run_agent_graph\<close> returns the fixed generic Summary Result: the five
  steps from \<open>"System initializes core components"\<close> to \<open>"System returns formatted result"\<close>,
  the components \<open>["core system", "input handler", "output formatter"]\<close> and the functions
  \<open>["main", "init", "process"]\<close>.
\<close>

theorem run_agent_graph_fallback:
  assumes "fetch s = Inl e \<or>
           (\<exists>c. fetch s = Inr c \<and>
              (analyze (cr_chunks c) = Inl e \<or>
               (\<exists>g. analyze (cr_chunks c) = Inr g \<and> reason g = Inl e)))"
  shows "run_agent_graph_with fetch analyze reason s =
           \<lparr>execution_flow =
              [''System initializes core components'',
               ''Input handler receives and validates data'',
               ''Main processor transforms the data'',
               ''Output formatter prepares response'',
               ''System returns formatted result''],
            key_components = [''core system'', ''input handler'', ''output formatter''],
            key_functions = [''main'', ''init'', ''process'']\<rparr>"
proof -
  have "execute_pipeline fetch analyze reason s = Inl e"
    using assms by (auto simp: execute_pipeline_def)
  then show ?thesis
    by (simp add: run_agent_graph_with_def generic_summary_def)
qed

theorem run_agent_graph_fallback_witness:
  "flow_process cycle3 = Inl NetworkXUnfeasible \<and>
   run_agent_graph_with (\<lambda>s. Inr (repo_fetcher_process s)) (\<lambda>chunks. Inr cycle3) flow_process
       ''class a class b class c'' =
     \<lparr>execution_flow =
        [''System initializes core components'',
         ''Input handler receives and validates data'',
         ''Main processor transforms the data'',
         ''Output formatter prepares response'',
         ''System returns formatted result''],
      key_components = [''core system'', ''input handler'', ''output formatter''],
      key_functions = [''main'', ''init'', ''process'']\<rparr>"
proof -
  have "\<exists>c. (Inr (repo_fetcher_process ''class a class b class c'') :: exn + chunk_result) = Inr c \<and>
          ((Inr cycle3 :: exn + graph_data) = Inl NetworkXUnfeasible \<or>
           (\<exists>g. (Inr cycle3 :: exn + graph_data) = Inr g \<and> flow_process g = Inl NetworkXUnfeasible))"
    using flow_process_cycle3 by simp
  then have h: "(Inr (repo_fetcher_process ''class a class b class c'') :: exn + chunk_result)
        = Inl NetworkXUnfeasible \<or>
      (\<exists>c. (Inr (repo_fetcher_process ''class a class b class c'') :: exn + chunk_result) = Inr c \<and>
          ((Inr cycle3 :: exn + graph_data) = Inl NetworkXUnfeasible \<or>
           (\<exists>g. (Inr cycle3 :: exn + graph_data) = Inr g \<and> flow_process g = Inl NetworkXUnfeasible)))"
    by (rule disjI2)
  from run_agent_graph_fallback
    [of "\<lambda>s. Inr (repo_fetcher_process s)" "''class a class b class c''" NetworkXUnfeasible
        "\<lambda>chunks. Inr cycle3" flow_process, OF h]
    flow_process_cycle3
  show ?thesis by simp
qed

end
